theory Spec2Isabelle
  imports Main "HOL-Library.Char_ord" "HOL-Library.List_Lexorder"
begin

section \<open>JavaScript values used by the Automaton class\<close>

text \<open>
  Strings are sequences of code units, modelled as \<^typ>\<open>string\<close>; only equality of code
  units and their order (for \<open>Array.prototype.sort\<close>, the lexicographic order on
  lists over the order of the code units) are used.
  The reserved symbol \<open>'\<epsilon>'\<close> is a string of one code unit. A state name and a
  transition symbol are strings; a symbol read from the input, \<open>input[i]\<close>, is the
  one-unit string \<open>[c]\<close>.
\<close>

definition eps :: string where
  "eps = [CHR 0xB5]"

text \<open>Truthiness of a string value (\<open>!s\<close> is true for the empty string).\<close>

definition truthy :: "string \<Rightarrow> bool" where
  "truthy s \<longleftrightarrow> s \<noteq> []"

subsection \<open>Set: a list without duplicates, in insertion order\<close>

definition set_add :: "'a \<Rightarrow> 'a list \<Rightarrow> 'a list" where
  "set_add x xs = (if x \<in> set xs then xs else xs @ [x])"

definition set_delete :: "'a \<Rightarrow> 'a list \<Rightarrow> 'a list" where
  "set_delete x xs = removeAll x xs"

definition new_Set :: "'a list \<Rightarrow> 'a list" where
  "new_Set xs = foldl (\<lambda>s x. set_add x s) [] xs"

subsection \<open>Object: own properties in enumeration order\<close>

text \<open>
  An object used as a table is the list of its own properties in the order \<open>for ... in\<close>
  enumerates them: array-index keys in ascending numeric order first, then the other
  keys in the order of their creation.
\<close>

type_synonym 'v obj = "(string \<times> 'v) list"

definition is_digit :: "char \<Rightarrow> bool" where
  "is_digit c \<longleftrightarrow> CHR ''0'' \<le> c \<and> c \<le> CHR ''9''"

definition index_value :: "string \<Rightarrow> nat" where
  "index_value s = foldl (\<lambda>n c. 10 * n + (of_char c - 48)) 0 s"

definition is_array_index :: "string \<Rightarrow> bool" where
  "is_array_index s \<longleftrightarrow>
     s \<noteq> [] \<and> list_all is_digit s \<and> (s = ''0'' \<or> hd s \<noteq> CHR ''0'') \<and>
     length s \<le> 10 \<and> index_value s < 4294967295"

fun put_index :: "string \<Rightarrow> 'v \<Rightarrow> 'v obj \<Rightarrow> 'v obj" where
  "put_index k v [] = [(k, v)]"
| "put_index k v (p # ps) =
     (if is_array_index (fst p) \<and> index_value (fst p) < index_value k
      then p # put_index k v ps else (k, v) # p # ps)"

definition obj_get :: "'v obj \<Rightarrow> string \<Rightarrow> 'v option" where
  "obj_get ob k = map_of ob k"

definition obj_set :: "string \<Rightarrow> 'v \<Rightarrow> 'v obj \<Rightarrow> 'v obj" where
  "obj_set k v ob =
     (if k \<in> fst ` set ob then map (\<lambda>p. if fst p = k then (k, v) else p) ob
      else if is_array_index k then put_index k v ob
      else ob @ [(k, v)])"

definition obj_delete :: "string \<Rightarrow> 'v obj \<Rightarrow> 'v obj" where
  "obj_delete k ob = filter (\<lambda>p. fst p \<noteq> k) ob"

subsection \<open>Property names every object inherits\<close>

text \<open>
  The tables of the class (\<open>transitions\<close>, its rows, \<open>stateMap\<close>) are plain objects
  \<open>{}\<close>, and \<open>obj_get\<close>, \<open>obj_set\<close> and \<open>obj_delete\<close> are the read, the assignment and
  the \<open>delete\<close> of an own property. A read \<open>ob[k]\<close> of the source is the read of the own
  property for every key but the names below: at such a name a plain object without
  that own property yields a function or object of the runtime (\<open>Object\<close> for
  \<open>constructor\<close>, \<open>Object.prototype\<close> for \<open>__proto__\<close>), which is truthy; an assignment
  to \<open>__proto__\<close> creates no property, and a write through such a value changes the
  runtime object and not the table. The definitions of this theory give what the code
  does at keys that are none of these names; \<open>plain_key\<close> says so of a key, and a general
  statement about the tables assumes it of the state names and symbols it reads or
  writes. \<open>Object.prototype\<close> itself is taken as the language defines it.
\<close>

definition prototype_properties :: "string list" where
  "prototype_properties =
     [''constructor'', ''__defineGetter__'', ''__defineSetter__'', ''hasOwnProperty'',
      ''__lookupGetter__'', ''__lookupSetter__'', ''isPrototypeOf'',
      ''propertyIsEnumerable'', ''toString'', ''valueOf'', ''__proto__'',
      ''toLocaleString'']"

definition plain_key :: "string \<Rightarrow> bool" where
  "plain_key k \<longleftrightarrow> k \<notin> set prototype_properties"

section \<open>The Automaton class\<close>

datatype kind = DFA | NFA

text \<open>
  The value stored at \<open>transitions[from][symbol]\<close>: one state name in a DFA, a Set of
  state names in an NFA.
\<close>

datatype target = One string | Many "string list"

type_synonym table = "target obj obj"

record automaton =
  type :: kind
  states :: "string list"
  alphabet :: "string list"
  transitions :: table
  initialState :: "string option"
  finalStates :: "string list"

definition new_Automaton :: "kind \<Rightarrow> automaton" where
  "new_Automaton k =
     \<lparr>type = k, states = [], alphabet = [], transitions = [],
      initialState = None, finalStates = []\<rparr>"

text \<open>\<open>t[q]\<close> or the empty row, and \<open>t[q] && t[q][a]\<close>.\<close>

definition row_of :: "table \<Rightarrow> string \<Rightarrow> target obj" where
  "row_of t q = (case obj_get t q of None \<Rightarrow> [] | Some row \<Rightarrow> row)"

definition get2 :: "table \<Rightarrow> string \<Rightarrow> string \<Rightarrow> target option" where
  "get2 t q a = (case obj_get t q of None \<Rightarrow> None | Some row \<Rightarrow> obj_get row a)"

text \<open>Truthiness of a table entry: absent and the empty string are falsy, a Set is truthy.\<close>

fun entry_truthy :: "target option \<Rightarrow> bool" where
  "entry_truthy None = False"
| "entry_truthy (Some (One s)) = truthy s"
| "entry_truthy (Some (Many ts)) = True"

text \<open>The members of the Set at a table entry (none when the entry is absent).\<close>

fun members :: "target option \<Rightarrow> string list" where
  "members (Some (Many ts)) = ts"
| "members _ = []"

text \<open>
  Every name an automaton holds: its states, its symbols, its initial and final states,
  and the keys, symbols and targets of its table. \<open>plain_names\<close>: none of them is the
  name of a property of \<open>Object.prototype\<close>.
\<close>

fun target_names :: "target \<Rightarrow> string list" where
  "target_names (One q) = [q]"
| "target_names (Many ts) = ts"

definition names_of :: "automaton \<Rightarrow> string list" where
  "names_of A =
     states A @ alphabet A @ finalStates A @
     (case initialState A of None \<Rightarrow> [] | Some q \<Rightarrow> [q]) @
     concat (map (\<lambda>(q, row). q # concat (map (\<lambda>(a, t). a # target_names t) row))
               (transitions A))"

definition plain_names :: "automaton \<Rightarrow> bool" where
  "plain_names A \<longleftrightarrow> list_all plain_key (names_of A)"

subsection \<open>Mutation API\<close>

definition addState :: "string \<Rightarrow> automaton \<Rightarrow> automaton" where
  "addState state A = A\<lparr>states := set_add state (states A)\<rparr>"

text \<open>
  The inner loop of \<open>removeState\<close> over the symbols of one row. In a DFA an entry equal
  to the state is deleted; in an NFA the state is deleted from every target Set and a
  Set left empty is deleted with its symbol.
\<close>

definition remove_target :: "kind \<Rightarrow> string \<Rightarrow> target obj \<Rightarrow> target obj" where
  "remove_target k state row =
     (if k = DFA then filter (\<lambda>(symbol, t). t \<noteq> One state) row
      else List.map_filter (\<lambda>(symbol, t).
             case t of
               Many ts \<Rightarrow> (let ts' = set_delete state ts
                           in if ts' = [] then None else Some (symbol, Many ts'))
             | One s \<Rightarrow> Some (symbol, One s)) row)"

definition removeState :: "string \<Rightarrow> automaton \<Rightarrow> automaton" where
  "removeState state A =
     A\<lparr>states := set_delete state (states A),
       initialState := (if initialState A = Some state then None else initialState A),
       finalStates := set_delete state (finalStates A),
       transitions :=
         map (\<lambda>(fromState, row). (fromState, remove_target (type A) state row))
             (filter (\<lambda>(fromState, row). fromState \<noteq> state) (transitions A))\<rparr>"

definition setAlphabet :: "string list \<Rightarrow> automaton \<Rightarrow> automaton" where
  "setAlphabet symbols A = A\<lparr>alphabet := new_Set symbols\<rparr>"

definition setInitialState :: "string \<Rightarrow> automaton \<Rightarrow> automaton" where
  "setInitialState state A =
     (if state \<in> set (states A) then A\<lparr>initialState := Some state\<rparr> else A)"

definition toggleFinalState :: "string \<Rightarrow> bool \<Rightarrow> automaton \<Rightarrow> automaton" where
  "toggleFinalState state isFinal A =
     (if state \<in> set (states A)
      then (if isFinal then A\<lparr>finalStates := set_add state (finalStates A)\<rparr>
            else A\<lparr>finalStates := set_delete state (finalStates A)\<rparr>)
      else A)"

text \<open>
  \<open>addTransition\<close> returns its boolean and the automaton after the call. The row
  \<open>transitions[fromState]\<close> and its entry at \<open>symbol\<close> are own properties when
  \<open>fromState\<close> and \<open>symbol\<close> are plain keys; so it is in \<open>removeTransition\<close>.
\<close>

definition addTransition :: "string \<Rightarrow> string \<Rightarrow> string \<Rightarrow> automaton \<Rightarrow> bool \<times> automaton" where
  "addTransition fromState symbol toState A =
     (if fromState \<notin> set (states A) \<or> toState \<notin> set (states A) then (False, A)
      else
        let alphabet' = (if symbol \<noteq> eps then set_add symbol (alphabet A) else alphabet A);
            row = row_of (transitions A) fromState;
            row' = (if type A = DFA then obj_set symbol (One toState) row
                    else obj_set symbol
                           (Many (set_add toState (members (obj_get row symbol)))) row)
        in (True, A\<lparr>alphabet := alphabet',
                     transitions := obj_set fromState row' (transitions A)\<rparr>))"

definition removeTransition :: "string \<Rightarrow> string \<Rightarrow> string \<Rightarrow> automaton \<Rightarrow> bool \<times> automaton" where
  "removeTransition fromState symbol toState A =
     (if \<not> entry_truthy (get2 (transitions A) fromState symbol) then (False, A)
      else
        let row = row_of (transitions A) fromState;
            row' = (if type A = DFA then obj_delete symbol row
                    else (case obj_get row symbol of
                            Some (Many ts) \<Rightarrow>
                              (let ts' = set_delete toState ts
                               in if ts' = [] then obj_delete symbol row
                                  else obj_set symbol (Many ts') row)
                          | _ \<Rightarrow> row));
            t' = obj_set fromState row' (transitions A);
            symbolInUse = list_ex (\<lambda>state. entry_truthy (get2 t' state symbol)) (map fst t')
        in (True, A\<lparr>transitions := t',
                     alphabet := (if \<not> symbolInUse \<and> symbol \<noteq> eps
                                  then set_delete symbol (alphabet A) else alphabet A)\<rparr>))"

section \<open>Closure and move\<close>

text \<open>
  The inner loop of \<open>_epsilonClosure\<close>: every \<open>nextState\<close> not yet in the closure is
  pushed on the closure and on the stack.
\<close>

fun push_new :: "string list \<Rightarrow> string list \<times> string list \<Rightarrow> string list \<times> string list" where
  "push_new [] (closure, stack) = (closure, stack)"
| "push_new (nextState # rest) (closure, stack) =
     (if nextState \<in> set closure then push_new rest (closure, stack)
      else push_new rest (closure @ [nextState], stack @ [nextState]))"

definition eps_targets :: "automaton \<Rightarrow> string \<Rightarrow> string list" where
  "eps_targets A q = members (get2 (transitions A) q eps)"

text \<open>Every state some row lists under \<open>'\<epsilon>'\<close>: the states the closure loop can add.\<close>

definition eps_universe :: "automaton \<Rightarrow> string set" where
  "eps_universe A = (\<Union>p \<in> set (transitions A). set (members (obj_get (snd p) eps)))"

function closure_loop :: "automaton \<Rightarrow> string list \<Rightarrow> string list \<Rightarrow> string list" where
  "closure_loop A closure stack =
     (if stack = [] then closure
      else case push_new (eps_targets A (last stack)) (closure, butlast stack) of
             (closure', stack') \<Rightarrow> closure_loop A closure' stack')"
  by pat_completeness auto

lemma push_new_set: "set (fst (push_new ts (cl, st))) = set cl \<union> set ts"
  by (induction ts arbitrary: cl st) auto

lemma push_new_id: "set ts \<subseteq> set cl \<Longrightarrow> push_new ts (cl, st) = (cl, st)"
  by (induction ts arbitrary: cl st) auto

lemma eps_targets_universe: "set (eps_targets A q) \<subseteq> eps_universe A"
  unfolding eps_targets_def eps_universe_def get2_def obj_get_def
  by (auto split: option.splits dest!: map_of_SomeD)

lemma finite_eps_universe: "finite (eps_universe A)"
  unfolding eps_universe_def by auto

termination closure_loop
proof (relation "inv_image (less_than <*lex*> less_than)
          (\<lambda>(A, cl, st). (card (eps_universe A - set cl), length st))", goal_cases)
  case 1
  show ?case by (intro wf_inv_image wf_lex_prod wf_less_than)
next
  case (2 A closure stack cl' st')
  let ?ts = "eps_targets A (last stack)"
  show ?case
  proof (cases "set ?ts \<subseteq> set closure")
    case True
    with 2 have "cl' = closure" "st' = butlast stack"
      by (simp_all add: push_new_id)
    with 2 show ?thesis by simp
  next
    case False
    have "set cl' = set closure \<union> set ?ts"
      using 2(2) [symmetric] push_new_set [of ?ts closure "butlast stack"] by simp
    then have "eps_universe A - set cl' \<subset> eps_universe A - set closure"
      using False eps_targets_universe [of A "last stack"] by auto
    then have "card (eps_universe A - set cl') < card (eps_universe A - set closure)"
      by (intro psubset_card_mono) (simp_all add: finite_eps_universe)
    then show ?thesis by simp
  qed
qed

declare closure_loop.simps [simp del]

text \<open>\<open>_epsilonClosure(stateSet)\<close>: closure and stack start as copies of the argument.\<close>

definition epsilonClosure :: "automaton \<Rightarrow> string list \<Rightarrow> string list" where
  "epsilonClosure A stateSet = sort (closure_loop A stateSet stateSet)"

text \<open>
  The loop that collects \<open>nextStates\<close>: the concatenation, over the states of the
  current list, of the target Sets on the symbol.
\<close>

definition move :: "automaton \<Rightarrow> string list \<Rightarrow> string \<Rightarrow> string list" where
  "move A stateSet symbol =
     concat (map (\<lambda>q. members (get2 (transitions A) q symbol)) stateSet)"

definition getNextStates :: "automaton \<Rightarrow> string list \<Rightarrow> string \<Rightarrow> string list" where
  "getNextStates A stateSet symbol = epsilonClosure A (move A stateSet symbol)"

fun join_comma :: "string list \<Rightarrow> string" where
  "join_comma [] = []"
| "join_comma [x] = x"
| "join_comma (x # y # ys) = x @ '','' @ join_comma (y # ys)"

definition getSetName :: "string list \<Rightarrow> string" where
  "getSetName stateSet =
     (if stateSet = [] then [CHR 0xD8] else ''{'' @ join_comma stateSet @ ''}'')"

section \<open>Simulation\<close>

text \<open>The error messages of the simulation, named after the kinds of error.\<close>

definition UnknownSymbol :: "string \<Rightarrow> string" where
  "UnknownSymbol symbol = ''Symbol '' @ symbol @ '' is not in the alphabet''"

definition MissingTransition :: "string \<Rightarrow> string \<Rightarrow> string" where
  "MissingTransition q symbol = ''No transition from state '' @ q @ '' on symbol '' @ symbol"

definition NoReachableStates :: "string \<Rightarrow> string" where
  "NoReachableStates symbol = ''No transitions from current states on symbol '' @ symbol"

text \<open>An entry of the path: \<open>{state, input}\<close> of a DFA run, \<open>{states, input}\<close> of an NFA run.\<close>

datatype step = DStep string string | NStep "string list" string

record result =
  accepted :: bool
  path :: "step list"
  error :: "string option"

text \<open>
  \<open>!this.initialState\<close>: the initial state is null or the empty string.
\<close>

definition no_initial :: "automaton \<Rightarrow> bool" where
  "no_initial A \<longleftrightarrow> (case initialState A of None \<Rightarrow> True | Some q \<Rightarrow> \<not> truthy q)"

text \<open>
  \<open>this.initialState\<close> read as a state name: null, used as a property name or in a
  template string, reads \<open>null\<close>.
\<close>

definition js_str :: "string option \<Rightarrow> string" where
  "js_str v = (case v of None \<Rightarrow> ''null'' | Some s \<Rightarrow> s)"

text \<open>
  The transition a DFA follows: \<open>transitions[q][symbol]\<close> when it is truthy. (A Set
  stored in the table of a DFA is outside the model.)
\<close>

definition dfa_next :: "automaton \<Rightarrow> string \<Rightarrow> string \<Rightarrow> string option" where
  "dfa_next A q symbol =
     (case get2 (transitions A) q symbol of
        Some (One t) \<Rightarrow> if truthy t then Some t else None
      | _ \<Rightarrow> None)"

text \<open>The loop of \<open>_simulateDFA\<close>, on the input that remains.\<close>

fun dfa_loop :: "automaton \<Rightarrow> string \<Rightarrow> string \<Rightarrow> step list \<Rightarrow> result" where
  "dfa_loop A currentState [] pth =
     \<lparr>accepted = currentState \<in> set (finalStates A), path = pth, error = None\<rparr>"
| "dfa_loop A currentState (c # rest) pth =
     (if [c] \<notin> set (alphabet A)
      then \<lparr>accepted = False, path = pth, error = Some (UnknownSymbol [c])\<rparr>
      else case dfa_next A currentState [c] of
             None \<Rightarrow> \<lparr>accepted = False, path = pth,
                       error = Some (MissingTransition currentState [c])\<rparr>
           | Some t \<Rightarrow> dfa_loop A t rest (pth @ [DStep t rest]))"

definition simulateDFA :: "automaton \<Rightarrow> string \<Rightarrow> result" where
  "simulateDFA A input =
     (if no_initial A then \<lparr>accepted = False, path = [], error = None\<rparr>
      else dfa_loop A (js_str (initialState A)) input
             [DStep (js_str (initialState A)) input])"

text \<open>The loop of \<open>_simulateNFA\<close>.\<close>

fun nfa_loop :: "automaton \<Rightarrow> string list \<Rightarrow> string \<Rightarrow> step list \<Rightarrow> result" where
  "nfa_loop A currentStates [] pth =
     \<lparr>accepted = list_ex (\<lambda>q. q \<in> set (finalStates A)) currentStates,
      path = pth, error = None\<rparr>"
| "nfa_loop A currentStates (c # rest) pth =
     (if [c] \<notin> set (alphabet A)
      then \<lparr>accepted = False, path = pth, error = Some (UnknownSymbol [c])\<rparr>
      else let nextStates = epsilonClosure A (move A currentStates [c])
           in if nextStates = []
              then \<lparr>accepted = False, path = pth, error = Some (NoReachableStates [c])\<rparr>
              else nfa_loop A nextStates rest (pth @ [NStep nextStates rest]))"

definition simulateNFA :: "automaton \<Rightarrow> string \<Rightarrow> result" where
  "simulateNFA A input =
     (if no_initial A then \<lparr>accepted = False, path = [], error = None\<rparr>
      else let currentStates = epsilonClosure A [js_str (initialState A)]
           in nfa_loop A currentStates input [NStep currentStates input])"

definition simulate :: "automaton \<Rightarrow> string \<Rightarrow> result" where
  "simulate A input = (if type A = DFA then simulateDFA A input else simulateNFA A input)"

subsection \<open>simulateStep\<close>

text \<open>
  The object \<open>simulateStep\<close> returns. Its fields \<open>state\<close>, \<open>states\<close>, \<open>accepted\<close> and
  \<open>error\<close> are written \<open>cur_state\<close>, \<open>cur_states\<close>, \<open>step_accepted\<close> and \<open>step_error\<close>.
\<close>

record snapshot =
  cur_state :: "string option"
  cur_states :: "string list option"
  remainingInput :: string
  step_accepted :: bool
  complete :: bool
  step_error :: "string option"

text \<open>The DFA loop of \<open>simulateStep\<close> over \<open>processedInput\<close>; no test of the alphabet.\<close>

fun step_dfa_loop :: "automaton \<Rightarrow> string option \<Rightarrow> string \<Rightarrow> string \<Rightarrow> snapshot" where
  "step_dfa_loop A currentState [] remaining =
     \<lparr>cur_state = currentState, cur_states = None, remainingInput = remaining,
      step_accepted = (case currentState of None \<Rightarrow> False
                       | Some q \<Rightarrow> q \<in> set (finalStates A)),
      complete = (remaining = []), step_error = None\<rparr>"
| "step_dfa_loop A currentState (c # rest) remaining =
     (case dfa_next A (js_str currentState) [c] of
        None \<Rightarrow> \<lparr>cur_state = currentState, cur_states = None, remainingInput = remaining,
                  step_accepted = False, complete = True,
                  step_error = Some (MissingTransition (js_str currentState) [c])\<rparr>
      | Some t \<Rightarrow> step_dfa_loop A (Some t) rest remaining)"

text \<open>The NFA loop of \<open>simulateStep\<close>.\<close>

fun step_nfa_loop :: "automaton \<Rightarrow> string list \<Rightarrow> string \<Rightarrow> string \<Rightarrow> snapshot" where
  "step_nfa_loop A currentStates [] remaining =
     \<lparr>cur_state = None, cur_states = Some currentStates, remainingInput = remaining,
      step_accepted = list_ex (\<lambda>q. q \<in> set (finalStates A)) currentStates,
      complete = (remaining = []), step_error = None\<rparr>"
| "step_nfa_loop A currentStates (c # rest) remaining =
     (let nextStates = epsilonClosure A (move A currentStates [c])
      in if nextStates = []
         then \<lparr>cur_state = None, cur_states = Some [], remainingInput = remaining,
               step_accepted = False, complete = True,
               step_error = Some (NoReachableStates [c])\<rparr>
         else step_nfa_loop A nextStates rest remaining)"

text \<open>
  \<open>simulateStep(input, step)\<close> for a step count \<open>step \<ge> 0\<close>; \<open>substring\<close> clamps at the
  length of the input, as \<open>take\<close> and \<open>drop\<close> do. With a null initial state the NFA
  branch of the source puts null into the closure; the model puts its name there.
\<close>

definition simulateStep :: "automaton \<Rightarrow> string \<Rightarrow> nat \<Rightarrow> snapshot" where
  "simulateStep A input k =
     (if k = 0 then
        (if type A = DFA then
           \<lparr>cur_state = initialState A, cur_states = None, remainingInput = input,
            step_accepted = (case initialState A of None \<Rightarrow> False
                             | Some q \<Rightarrow> q \<in> set (finalStates A)),
            complete = (input = []), step_error = None\<rparr>
         else
           let initialStates = epsilonClosure A [js_str (initialState A)]
           in \<lparr>cur_state = None, cur_states = Some initialStates, remainingInput = input,
               step_accepted = list_ex (\<lambda>q. q \<in> set (finalStates A)) initialStates,
               complete = (input = []), step_error = None\<rparr>)
      else
        (if type A = DFA
         then step_dfa_loop A (initialState A) (take k input) (drop k input)
         else step_nfa_loop A (epsilonClosure A [js_str (initialState A)])
                (take k input) (drop k input)))"

section \<open>The sample automaton\<close>

text \<open>\<open>createSampleAutomaton\<close>, the DFA the page starts with.\<close>

definition createSampleAutomaton :: automaton where
  "createSampleAutomaton =
     (let sample = new_Automaton DFA;
          sample = addState ''q0'' sample;
          sample = addState ''q1'' sample;
          sample = addState ''q2'' sample;
          sample = setInitialState ''q0'' sample;
          sample = toggleFinalState ''q2'' True sample;
          sample = setAlphabet [''a'', ''b''] sample;
          sample = snd (addTransition ''q0'' ''a'' ''q1'' sample);
          sample = snd (addTransition ''q0'' ''b'' ''q0'' sample);
          sample = snd (addTransition ''q1'' ''a'' ''q1'' sample);
          sample = snd (addTransition ''q1'' ''b'' ''q2'' sample)
      in sample)"


lemma createSampleAutomaton_value:
  "createSampleAutomaton =
     \<lparr>type = DFA, states = [''q0'', ''q1'', ''q2''], alphabet = [''a'', ''b''],
      transitions =
        [(''q0'', [(''a'', One ''q1''), (''b'', One ''q0'')]),
         (''q1'', [(''a'', One ''q1''), (''b'', One ''q2'')])],
      initialState = Some ''q0'', finalStates = [''q2'']\<rparr>"
  by code_simp


section \<open>Errors of the simulation are data\<close>










section \<open>simulateStep against simulate\<close>

text \<open>
  The sample automaton after \<open>setAlphabet(['a'])\<close>: its transitions on \<open>b\<close> stay in the
  table, \<open>b\<close> leaves the alphabet.
\<close>

definition sampleWithoutB :: automaton where
  "sampleWithoutB = setAlphabet [''a''] createSampleAutomaton"

text \<open>
  Claim C4, at the inputs where the code departs from it. \<open>simulateStep\<close> has no test of
  the alphabet, which \<open>simulate\<close> has. On the sample automaton and the input \<open>c\<close>,
  \<open>simulate\<close> reports that the symbol is not in the alphabet, and \<open>simulateStep\<close> at step
  1 reports a missing transition instead. On the sample automaton with the alphabet
  \<open>{a}\<close> and the input \<open>ab\<close>, \<open>simulate\<close> halts on \<open>b\<close> and rejects, and \<open>simulateStep\<close> at
  step 2 follows the transition on \<open>b\<close> into \<open>q2\<close> and reports the input accepted, with no
  error.
\<close>

theorem simulateStep_omits_alphabet_test:
  "simulate createSampleAutomaton ''c'' =
     \<lparr>accepted = False, path = [DStep ''q0'' ''c''],
      error = Some ''Symbol c is not in the alphabet''\<rparr> \<and>
   simulateStep createSampleAutomaton ''c'' 1 =
     \<lparr>cur_state = Some ''q0'', cur_states = None, remainingInput = [],
      step_accepted = False, complete = True,
      step_error = Some ''No transition from state q0 on symbol c''\<rparr> \<and>
   simulate sampleWithoutB ''ab'' =
     \<lparr>accepted = False, path = [DStep ''q0'' ''ab'', DStep ''q1'' ''b''],
      error = Some ''Symbol b is not in the alphabet''\<rparr> \<and>
   simulateStep sampleWithoutB ''ab'' 2 =
     \<lparr>cur_state = Some ''q2'', cur_states = None, remainingInput = [],
      step_accepted = True, complete = True, step_error = None\<rparr>"
  by code_simp

section \<open>Facts about Sets and objects\<close>

lemma set_set_add [simp]: "set (set_add x xs) = insert x (set xs)"
  by (auto simp: set_add_def)

lemma distinct_set_add [simp]: "distinct xs \<Longrightarrow> distinct (set_add x xs)"
  by (simp add: set_add_def)

lemma set_add_not_Nil [simp]: "set_add x xs \<noteq> []"
  by (auto simp: set_add_def)

lemma set_set_delete [simp]: "set (set_delete x xs) = set xs - {x}"
  by (simp add: set_delete_def)

lemma distinct_set_delete [simp]: "distinct xs \<Longrightarrow> distinct (set_delete x xs)"
  by (simp add: set_delete_def distinct_removeAll)

lemma set_put_index [simp]: "set (put_index k v ob) = insert (k, v) (set ob)"
  by (induction ob) auto

lemma map_of_put_index:
  "k \<notin> fst ` set ob \<Longrightarrow> map_of (put_index k v ob) = (map_of ob)(k \<mapsto> v)"
  by (induction ob) (auto simp: fun_eq_iff)

lemma distinct_put_index:
  "k \<notin> fst ` set ob \<Longrightarrow> distinct (map fst ob) \<Longrightarrow> distinct (map fst (put_index k v ob))"
  by (induction ob) (auto simp: image_iff)

lemma map_of_replace:
  "map_of (map (\<lambda>p. if fst p = k then (k, v) else p) ob) k' =
     (if k' = k then (if map_of ob k = None then None else Some v) else map_of ob k')"
  by (induction ob) auto

lemma obj_get_obj_set [simp]:
  "obj_get (obj_set k v ob) k' = (if k' = k then Some v else obj_get ob k')"
proof (cases "k \<in> fst ` set ob")
  case True
  then have "map_of ob k \<noteq> None" by (simp add: map_of_eq_None_iff)
  with True show ?thesis by (auto simp: obj_get_def obj_set_def map_of_replace)
next
  case False
  then have "map_of ob k = None" by (simp add: map_of_eq_None_iff)
  with False show ?thesis
    by (simp add: obj_get_def obj_set_def map_of_put_index map_add_def split: option.splits)
qed

lemma set_obj_set: "set (obj_set k v ob) \<subseteq> insert (k, v) (set ob)"
  by (auto simp: obj_set_def split: if_splits)

lemma keys_obj_set [simp]: "fst ` set (obj_set k v ob) = insert k (fst ` set ob)"
proof (cases "k \<in> fst ` set ob")
  case True
  have "fst ` set (map (\<lambda>p. if fst p = k then (k, v) else p) ob) = fst ` set ob"
    by (induction ob) auto
  with True show ?thesis by (auto simp: obj_set_def)
next
  case False
  then show ?thesis by (auto simp: obj_set_def)
qed

lemma distinct_obj_set:
  assumes "distinct (map fst ob)"
  shows "distinct (map fst (obj_set k v ob))"
proof (cases "k \<in> fst ` set ob")
  case True
  have r: "map fst (map (\<lambda>p. if fst p = k then (k, v) else p) ob) = map fst ob"
    by (induction ob) auto
  from True have e: "obj_set k v ob = map (\<lambda>p. if fst p = k then (k, v) else p) ob"
    by (simp add: obj_set_def)
  show ?thesis by (simp only: e r assms)
next
  case False
  show ?thesis
  proof (cases "is_array_index k")
    case True
    with False have "obj_set k v ob = put_index k v ob" by (simp add: obj_set_def)
    with False assms show ?thesis by (simp add: distinct_put_index)
  next
    case n: False
    with False have "obj_set k v ob = ob @ [(k, v)]" by (simp add: obj_set_def)
    with False assms show ?thesis by simp
  qed
qed

lemma obj_get_obj_delete [simp]:
  "obj_get (obj_delete k ob) k' = (if k' = k then None else obj_get ob k')"
  by (induction ob) (auto simp: obj_get_def obj_delete_def)

lemma set_obj_delete: "set (obj_delete k ob) \<subseteq> set ob"
  by (auto simp: obj_delete_def)

lemma distinct_obj_delete:
  "distinct (map fst ob) \<Longrightarrow> distinct (map fst (obj_delete k ob))"
  by (simp add: obj_delete_def distinct_map_filter)

lemma obj_get_in_set: "obj_get ob k = Some v \<Longrightarrow> (k, v) \<in> set ob"
  by (simp add: obj_get_def map_of_SomeD)

lemma row_of_in_set:
  assumes "(a, t) \<in> set (row_of tb q)"
  shows "\<exists>row. (q, row) \<in> set tb \<and> (a, t) \<in> set row"
proof (cases "obj_get tb q")
  case None
  with assms show ?thesis by (simp add: row_of_def)
next
  case (Some row)
  then have "(q, row) \<in> set tb" by (rule obj_get_in_set)
  moreover from Some assms have "(a, t) \<in> set row" by (simp add: row_of_def)
  ultimately show ?thesis by blast
qed

section \<open>Sequences of calls of the mutation API\<close>

datatype op =
    AddState string
  | RemoveState string
  | SetInitialState string
  | ToggleFinalState string bool
  | AddTransition string string string
  | RemoveTransition string string string

fun apply_op :: "op \<Rightarrow> automaton \<Rightarrow> automaton" where
  "apply_op (AddState q) A = addState q A"
| "apply_op (RemoveState q) A = removeState q A"
| "apply_op (SetInitialState q) A = setInitialState q A"
| "apply_op (ToggleFinalState q b) A = toggleFinalState q b A"
| "apply_op (AddTransition p a q) A = snd (addTransition p a q A)"
| "apply_op (RemoveTransition p a q) A = snd (removeTransition p a q A)"

definition run_ops :: "kind \<Rightarrow> op list \<Rightarrow> automaton" where
  "run_ops k ops = foldl (\<lambda>A c. apply_op c A) (new_Automaton k) ops"

text \<open>The names a call is given, and the sequences of calls given plain names only.\<close>

fun op_names :: "op \<Rightarrow> string list" where
  "op_names (AddState q) = [q]"
| "op_names (RemoveState q) = [q]"
| "op_names (SetInitialState q) = [q]"
| "op_names (ToggleFinalState q b) = [q]"
| "op_names (AddTransition p a q) = [p, a, q]"
| "op_names (RemoveTransition p a q) = [p, a, q]"

definition plain_ops :: "op list \<Rightarrow> bool" where
  "plain_ops ops \<longleftrightarrow> list_all (\<lambda>c. list_all plain_key (op_names c)) ops"

text \<open>The states a table entry names.\<close>

fun targets :: "target \<Rightarrow> string set" where
  "targets (One q) = {q}"
| "targets (Many ts) = set ts"

text \<open>
  The invariant of the class: a DFA stores single states and an NFA non-empty Sets, and
  every state the automaton names is a member of \<open>states\<close>.
\<close>

definition entry_ok :: "kind \<Rightarrow> string set \<Rightarrow> target \<Rightarrow> bool" where
  "entry_ok k S t \<longleftrightarrow>
     targets t \<subseteq> S \<and> (case t of One q \<Rightarrow> k = DFA | Many ts \<Rightarrow> k \<noteq> DFA \<and> ts \<noteq> [])"

definition table_ok :: "kind \<Rightarrow> string set \<Rightarrow> table \<Rightarrow> bool" where
  "table_ok k S tb \<longleftrightarrow>
     (\<forall>p \<in> set tb. fst p \<in> S \<and> (\<forall>e \<in> set (snd p). entry_ok k S (snd e)))"

definition class_inv :: "automaton \<Rightarrow> bool" where
  "class_inv A \<longleftrightarrow>
     (\<forall>q. initialState A = Some q \<longrightarrow> q \<in> set (states A)) \<and>
     set (finalStates A) \<subseteq> set (states A) \<and>
     table_ok (type A) (set (states A)) (transitions A)"

lemma entry_ok_mono: "entry_ok k S t \<Longrightarrow> S \<subseteq> S' \<Longrightarrow> entry_ok k S' t"
  by (auto simp: entry_ok_def)

lemma table_ok_mono: "table_ok k S tb \<Longrightarrow> S \<subseteq> S' \<Longrightarrow> table_ok k S' tb"
  unfolding table_ok_def by (blast intro: entry_ok_mono)

lemma table_ok_row_of:
  "table_ok k S tb \<Longrightarrow> e \<in> set (row_of tb q) \<Longrightarrow> entry_ok k S (snd e)"
  using row_of_in_set [of "fst e" "snd e" tb q] unfolding table_ok_def by fastforce

lemma table_ok_obj_set:
  assumes "table_ok k S tb" "q \<in> S" "\<forall>e \<in> set row. entry_ok k S (snd e)"
  shows "table_ok k S (obj_set q row tb)"
  using assms set_obj_set [of q row tb] unfolding table_ok_def by fastforce

lemma class_inv_new: "class_inv (new_Automaton k)"
  by (simp add: class_inv_def new_Automaton_def table_ok_def)

lemma class_inv_addState: "class_inv A \<Longrightarrow> class_inv (addState q A)"
  unfolding class_inv_def addState_def
  by (auto intro: table_ok_mono [where S = "set (states A)"])

lemma class_inv_setInitialState: "class_inv A \<Longrightarrow> class_inv (setInitialState q A)"
  unfolding class_inv_def setInitialState_def by auto

lemma class_inv_toggleFinalState: "class_inv A \<Longrightarrow> class_inv (toggleFinalState q b A)"
  unfolding class_inv_def toggleFinalState_def by auto

lemma class_inv_addTransition:
  assumes "class_inv A"
  shows "class_inv (snd (addTransition p a q A))"
proof (cases "p \<notin> set (states A) \<or> q \<notin> set (states A)")
  case True
  with assms show ?thesis by (simp add: addTransition_def)
next
  case False
  let ?k = "type A" and ?S = "set (states A)"
  let ?row = "row_of (transitions A) p"
  let ?v = "if type A = DFA then One q else Many (set_add q (members (obj_get ?row a)))"
  from assms have t: "table_ok ?k ?S (transitions A)" by (simp add: class_inv_def)
  have m: "set (members (obj_get ?row a)) \<subseteq> ?S"
  proof (cases "obj_get ?row a")
    case None
    then show ?thesis by simp
  next
    case (Some u)
    then have "(a, u) \<in> set ?row" by (rule obj_get_in_set)
    from table_ok_row_of [OF t this] Some show ?thesis
      by (cases u) (auto simp: entry_ok_def)
  qed
  have v: "entry_ok ?k ?S ?v"
    using False m by (auto simp: entry_ok_def)
  have "\<forall>e \<in> set (obj_set a ?v ?row). entry_ok ?k ?S (snd e)"
    using set_obj_set [of a ?v ?row] v table_ok_row_of [OF t] by fastforce
  then have "table_ok ?k ?S (obj_set p (obj_set a ?v ?row) (transitions A))"
    using t False by (intro table_ok_obj_set) auto
  moreover have "snd (addTransition p a q A) =
      A\<lparr>alphabet := (if a \<noteq> eps then set_add a (alphabet A) else alphabet A),
        transitions := obj_set p (obj_set a ?v ?row) (transitions A)\<rparr>"
    using False by (simp add: addTransition_def Let_def)
  ultimately show ?thesis
    using assms by (simp add: class_inv_def)
qed

lemma class_inv_removeTransition:
  assumes "class_inv A"
  shows "class_inv (snd (removeTransition p a q A))"
proof (cases "entry_truthy (get2 (transitions A) p a)")
  case False
  with assms show ?thesis by (simp add: removeTransition_def)
next
  case True
  let ?k = "type A" and ?S = "set (states A)"
  let ?row = "row_of (transitions A) p"
  from assms have t: "table_ok ?k ?S (transitions A)" by (simp add: class_inv_def)
  from True obtain row where row: "obj_get (transitions A) p = Some row"
    by (auto simp: get2_def split: option.splits)
  then have "(p, row) \<in> set (transitions A)" by (rule obj_get_in_set)
  with t have p: "p \<in> ?S" by (auto simp: table_ok_def)
  define row' where "row' = (if type A = DFA then obj_delete a ?row
                    else (case obj_get ?row a of
                            Some (Many ts) \<Rightarrow>
                              (let ts' = set_delete q ts
                               in if ts' = [] then obj_delete a ?row
                                  else obj_set a (Many ts') ?row)
                          | _ \<Rightarrow> ?row))"
  have r: "\<forall>e \<in> set row'. entry_ok ?k ?S (snd e)"
  proof (cases "type A = DFA")
    case True
    then show ?thesis
      using set_obj_delete [of a ?row] table_ok_row_of [OF t] by (auto simp: row'_def)
  next
    case n: False
    show ?thesis
    proof (cases "obj_get ?row a")
      case None
      with n show ?thesis using table_ok_row_of [OF t] by (auto simp: row'_def)
    next
      case (Some u)
      then have u: "(a, u) \<in> set ?row" by (rule obj_get_in_set)
      show ?thesis
      proof (cases u)
        case (One s)
        with n Some show ?thesis using table_ok_row_of [OF t] by (auto simp: row'_def)
      next
        case (Many ts)
        from table_ok_row_of [OF t u] Many have ts: "set ts \<subseteq> ?S" "type A \<noteq> DFA"
          by (auto simp: entry_ok_def)
        show ?thesis
        proof (cases "set_delete q ts = []")
          case True
          with n Some Many show ?thesis
            using set_obj_delete [of a ?row] table_ok_row_of [OF t]
            by (auto simp: row'_def)
        next
          case False
          then have "entry_ok ?k ?S (Many (set_delete q ts))"
            using ts by (auto simp: entry_ok_def)
          then have "\<forall>e \<in> set (obj_set a (Many (set_delete q ts)) ?row). entry_ok ?k ?S (snd e)"
            using set_obj_set [of a "Many (set_delete q ts)" ?row] table_ok_row_of [OF t]
            by fastforce
          with n Some Many False show ?thesis by (simp add: row'_def)
        qed
      qed
    qed
  qed
  have "table_ok ?k ?S (obj_set p row' (transitions A))"
    using t p r by (rule table_ok_obj_set)
  moreover have "transitions (snd (removeTransition p a q A)) = obj_set p row' (transitions A)"
    and "states (snd (removeTransition p a q A)) = states A"
    and "type (snd (removeTransition p a q A)) = type A"
    and "initialState (snd (removeTransition p a q A)) = initialState A"
    and "finalStates (snd (removeTransition p a q A)) = finalStates A"
    using True by (simp_all add: removeTransition_def Let_def row'_def)
  ultimately show ?thesis
    using assms by (simp add: class_inv_def)
qed


lemma in_set_map_filter:
  "y \<in> set (List.map_filter f xs) \<longleftrightarrow> (\<exists>x \<in> set xs. f x = Some y)"
  by (induction xs) (auto split: option.splits)

lemma remove_target_ok:
  assumes "\<forall>e \<in> set row. entry_ok k S (snd e)" and "e \<in> set (remove_target k q row)"
  shows "entry_ok k (S - {q}) (snd e)"
proof (cases "k = DFA")
  case True
  with assms(2) have "e \<in> set row" "snd e \<noteq> One q"
    by (auto simp: remove_target_def)
  with assms(1) True show ?thesis
    by (cases "snd e") (auto simp: entry_ok_def)
next
  case False
  with assms(2) obtain e0 where e0: "e0 \<in> set row"
    and f: "(case e0 of (symbol, t) \<Rightarrow>
             case t of
               Many ts \<Rightarrow> (let ts' = set_delete q ts
                           in if ts' = [] then None else Some (symbol, Many ts'))
             | One s \<Rightarrow> Some (symbol, One s)) = Some e"
    by (auto simp: remove_target_def in_set_map_filter)
  from assms(1) e0 have "entry_ok k S (snd e0)" by blast
  with False f show ?thesis
    by (cases e0; cases "snd e0") (auto simp: entry_ok_def Let_def split: if_splits)
qed

lemma removeState_gone:
  "q \<notin> set (states (removeState q A))"
  "initialState (removeState q A) \<noteq> Some q"
  "q \<notin> set (finalStates (removeState q A))"
  by (simp_all add: removeState_def)

lemma removeState_table:
  assumes "table_ok (type A) (set (states A)) (transitions A)"
  shows "table_ok (type A) (set (states A) - {q}) (transitions (removeState q A))"
  unfolding table_ok_def
proof (intro ballI conjI)
  fix p assume "p \<in> set (transitions (removeState q A))"
  then obtain p0 where p0: "p0 \<in> set (transitions A)" "fst p0 \<noteq> q"
    and p: "p = (fst p0, remove_target (type A) q (snd p0))"
    by (auto simp: removeState_def)
  from assms p0 have k: "fst p0 \<in> set (states A)"
    and r: "\<forall>e \<in> set (snd p0). entry_ok (type A) (set (states A)) (snd e)"
    by (auto simp: table_ok_def)
  from k p0 p show "fst p \<in> set (states A) - {q}" by simp
  fix e assume "e \<in> set (snd p)"
  with p have "e \<in> set (remove_target (type A) q (snd p0))" by simp
  with r show "entry_ok (type A) (set (states A) - {q}) (snd e)" by (rule remove_target_ok)
qed

lemma class_inv_removeState:
  assumes "class_inv A"
  shows "class_inv (removeState q A)"
proof -
  from assms have "table_ok (type A) (set (states A)) (transitions A)"
    by (simp add: class_inv_def)
  from removeState_table [OF this, of q]
  have "table_ok (type (removeState q A)) (set (states (removeState q A)))
          (transitions (removeState q A))"
    by (simp add: removeState_def)
  moreover have "\<forall>s. initialState (removeState q A) = Some s \<longrightarrow> s \<in> set (states (removeState q A))"
    using assms by (auto simp: class_inv_def removeState_def)
  moreover have "set (finalStates (removeState q A)) \<subseteq> set (states (removeState q A))"
    using assms by (auto simp: class_inv_def removeState_def)
  ultimately show ?thesis by (simp add: class_inv_def)
qed

lemma class_inv_apply_op: "class_inv A \<Longrightarrow> class_inv (apply_op c A)"
  by (cases c)
     (simp_all add: class_inv_addState class_inv_removeState class_inv_setInitialState
        class_inv_toggleFinalState class_inv_addTransition class_inv_removeTransition)

lemma run_ops_snoc: "run_ops k (ops @ [c]) = apply_op c (run_ops k ops)"
  by (simp add: run_ops_def)

lemma class_inv_run_ops: "class_inv (run_ops k ops)"
proof (induction ops rule: rev_induct)
  case Nil
  show ?case by (simp add: run_ops_def class_inv_new)
next
  case (snoc c ops)
  then show ?case by (simp add: run_ops_snoc class_inv_apply_op)
qed

lemma entry_ok_targets: "entry_ok k S t \<Longrightarrow> targets t \<subseteq> S \<and> t \<noteq> Many []"
  by (auto simp: entry_ok_def)

definition exampleOps :: "op list" where
  "exampleOps =
     [AddState ''q0'', AddState ''q1'', SetInitialState ''q1'', ToggleFinalState ''q1'' True,
      AddTransition ''q0'' ''a'' ''q1'', AddTransition ''q0'' ''a'' ''q0'',
      AddTransition ''q1'' ''b'' ''q1'']"

text \<open>
  Claim C7, at an input where the code departs from it. In a DFA, \<open>removeTransition\<close>
  deletes the entry of the pair \<open>(fromState, symbol)\<close> without comparing it with
  \<open>toState\<close>: on the sample automaton, \<open>removeTransition('q1', 'b', 'zz')\<close>, which names
  the state \<open>zz\<close> that is no member of \<open>states\<close>, returns true and deletes the transition
  from \<open>q1\<close> on \<open>b\<close> to \<open>q2\<close>. The sibling paths compare: the NFA branch of
  \<open>removeTransition\<close> deletes \<open>toState\<close> alone from the target Set and leaves the NFA of
  the calls above as it is, and the DFA branch of \<open>removeState\<close> deletes an entry only
  when it is equal to the state, so that \<open>removeState('zz')\<close> changes nothing.
\<close>

theorem removeTransition_ignores_target_in_DFA:
  "''zz'' \<notin> set (states createSampleAutomaton) \<and>
   get2 (transitions createSampleAutomaton) ''q1'' ''b'' = Some (One ''q2'') \<and>
   removeTransition ''q1'' ''b'' ''zz'' createSampleAutomaton =
     (True, createSampleAutomaton
        \<lparr>transitions := [(''q0'', [(''a'', One ''q1''), (''b'', One ''q0'')]),
                         (''q1'', [(''a'', One ''q1'')])]\<rparr>) \<and>
   removeState ''zz'' createSampleAutomaton = createSampleAutomaton \<and>
   removeTransition ''q0'' ''a'' ''zz'' (run_ops NFA exampleOps) = (True, run_ops NFA exampleOps)"
  by code_simp

section \<open>The table of a DFA\<close>

definition keys_distinct :: "table \<Rightarrow> bool" where
  "keys_distinct tb \<longleftrightarrow>
     distinct (map fst tb) \<and> (\<forall>p \<in> set tb. distinct (map fst (snd p)))"

lemma keys_distinct_row_of: "keys_distinct tb \<Longrightarrow> distinct (map fst (row_of tb q))"
proof (cases "obj_get tb q")
  case None
  then show ?thesis by (simp add: row_of_def)
next
  case (Some row)
  assume "keys_distinct tb"
  with obj_get_in_set [OF Some] Some show ?thesis
    by (auto simp: keys_distinct_def row_of_def)
qed

lemma keys_distinct_obj_set:
  assumes "keys_distinct tb" "distinct (map fst row)"
  shows "keys_distinct (obj_set q row tb)"
  using assms set_obj_set [of q row tb] distinct_obj_set [of tb q row]
  unfolding keys_distinct_def by fastforce

lemma distinct_keys_map_filter:
  assumes "\<And>e y. f e = Some y \<Longrightarrow> fst y = fst e"
  shows "distinct (map fst xs) \<Longrightarrow> distinct (map fst (List.map_filter f xs))"
proof (induction xs)
  case Nil
  show ?case by simp
next
  case (Cons x xs)
  have "fst ` set (List.map_filter f xs) \<subseteq> fst ` set xs"
    using assms by (force simp: in_set_map_filter)
  with Cons assms [of x] show ?case
    by (auto split: option.splits)
qed

lemma distinct_remove_target:
  "distinct (map fst row) \<Longrightarrow> distinct (map fst (remove_target k q row))"
  unfolding remove_target_def
  by (auto simp: distinct_map_filter Let_def
      intro!: distinct_keys_map_filter split: target.splits if_splits)

lemma keys_distinct_removeState:
  assumes "keys_distinct (transitions A)"
  shows "keys_distinct (transitions (removeState q A))"
proof -
  let ?f = "filter (\<lambda>(fromState, row). fromState \<noteq> q) (transitions A)"
  have m: "map fst (map (\<lambda>(fromState, row). (fromState, remove_target (type A) q row)) ?f)
           = map fst ?f"
    by (induction "transitions A") auto
  have "distinct (map fst ?f)"
    using assms by (simp add: keys_distinct_def distinct_map_filter)
  moreover have "\<forall>p \<in> set (transitions (removeState q A)). distinct (map fst (snd p))"
    using assms by (fastforce simp: removeState_def keys_distinct_def intro: distinct_remove_target)
  ultimately show ?thesis
    unfolding keys_distinct_def by (simp add: removeState_def m del: map_map)
qed


lemma keys_distinct_addTransition:
  assumes "keys_distinct (transitions A)"
  shows "keys_distinct (transitions (snd (addTransition p a q A)))"
proof (cases "p \<notin> set (states A) \<or> q \<notin> set (states A)")
  case True
  with assms show ?thesis by (simp add: addTransition_def)
next
  case False
  then show ?thesis
    using assms
    by (auto simp: addTransition_def Let_def
        intro!: keys_distinct_obj_set distinct_obj_set keys_distinct_row_of)
qed

lemma keys_distinct_removeTransition:
  assumes "keys_distinct (transitions A)"
  shows "keys_distinct (transitions (snd (removeTransition p a q A)))"
proof (cases "entry_truthy (get2 (transitions A) p a)")
  case False
  with assms show ?thesis by (simp add: removeTransition_def)
next
  case True
  have d: "distinct (map fst (row_of (transitions A) p))"
    using assms by (rule keys_distinct_row_of)
  show ?thesis
    using True assms d
    by (auto simp: removeTransition_def Let_def
        intro!: keys_distinct_obj_set distinct_obj_set distinct_obj_delete
        split: option.splits target.splits)
qed

lemma keys_distinct_apply_op:
  "keys_distinct (transitions A) \<Longrightarrow> keys_distinct (transitions (apply_op c A))"
  by (cases c)
     (simp_all add: keys_distinct_removeState keys_distinct_addTransition
        keys_distinct_removeTransition addState_def setInitialState_def toggleFinalState_def)

lemma keys_distinct_run_ops: "keys_distinct (transitions (run_ops k ops))"
proof (induction ops rule: rev_induct)
  case Nil
  show ?case by (simp add: run_ops_def new_Automaton_def keys_distinct_def)
next
  case (snoc c ops)
  then show ?case by (simp add: run_ops_snoc keys_distinct_apply_op)
qed

lemma type_apply_op: "type (apply_op c A) = type A"
  by (cases c)
     (simp_all add: addState_def removeState_def setInitialState_def toggleFinalState_def
        addTransition_def removeTransition_def Let_def)

lemma type_run_ops: "type (run_ops k ops) = k"
  by (induction ops rule: rev_induct)
     (simp_all add: run_ops_snoc type_apply_op, simp add: run_ops_def new_Automaton_def)

lemma eps_alphabet_apply_op:
  "eps \<notin> set (alphabet A) \<Longrightarrow> eps \<notin> set (alphabet (apply_op c A))"
  by (cases c)
     (simp_all add: addState_def removeState_def setInitialState_def toggleFinalState_def
        addTransition_def removeTransition_def Let_def)

lemma eps_alphabet_run_ops: "eps \<notin> set (alphabet (run_ops k ops))"
proof (induction ops rule: rev_induct)
  case Nil
  show ?case by (simp add: run_ops_def new_Automaton_def)
next
  case (snoc c ops)
  then show ?case by (simp add: run_ops_snoc eps_alphabet_apply_op)
qed

text \<open>
  Claim C8 fails as stated: \<open>addTransition('q0', '\<epsilon>', 'q0')\<close> on a DFA with the state
  \<open>q0\<close> stores the transition on \<open>'\<epsilon>'\<close> in the table.
\<close>

theorem dfa_table_holds_eps_transition:
  "type (run_ops DFA [AddState ''q0'', AddTransition ''q0'' eps ''q0'']) = DFA \<and>
   transitions (run_ops DFA [AddState ''q0'', AddTransition ''q0'' eps ''q0''])
     = [(''q0'', [(eps, One ''q0'')])]"
  by code_simp

text \<open>
  Claim C8, amended. After any sequence of calls of the mutation API on a new DFA, with
  state names and symbols that are plain keys, every source state has one row and every
  symbol one entry in it, an entry is a single state, and \<open>'\<epsilon>'\<close> is not in the
  alphabet; \<open>addTransition(p, '\<epsilon>', q)\<close> between two member states returns true and
  stores \<open>q\<close> at \<open>transitions[p]['\<epsilon>']\<close>, leaving the alphabet as it is.
\<close>

theorem dfa_table_single_target:
  assumes "plain_ops ops" and "plain_key p"
  shows
  "distinct (map fst (transitions (run_ops DFA ops))) \<and>
   (\<forall>r \<in> set (transitions (run_ops DFA ops)).
      distinct (map fst (snd r)) \<and> (\<forall>e \<in> set (snd r). \<exists>t. snd e = One t)) \<and>
   eps \<notin> set (alphabet (run_ops DFA ops)) \<and>
   (p \<in> set (states (run_ops DFA ops)) \<and> q \<in> set (states (run_ops DFA ops)) \<longrightarrow>
      fst (addTransition p eps q (run_ops DFA ops)) \<and>
      get2 (transitions (snd (addTransition p eps q (run_ops DFA ops)))) p eps = Some (One q) \<and>
      alphabet (snd (addTransition p eps q (run_ops DFA ops))) = alphabet (run_ops DFA ops))"
proof -
  let ?R = "run_ops DFA ops"
  have "keys_distinct (transitions ?R)" by (rule keys_distinct_run_ops)
  then have 1: "distinct (map fst (transitions ?R))"
    and 2: "\<forall>r \<in> set (transitions ?R). distinct (map fst (snd r))"
    by (simp_all add: keys_distinct_def)
  have "table_ok DFA (set (states ?R)) (transitions ?R)"
    using class_inv_run_ops [of DFA ops] by (simp add: class_inv_def type_run_ops)
  then have 3: "\<forall>r \<in> set (transitions ?R). \<forall>e \<in> set (snd r). \<exists>t. snd e = One t"
    unfolding table_ok_def entry_ok_def by (fastforce split: target.splits)
  have 4: "eps \<notin> set (alphabet ?R)" by (rule eps_alphabet_run_ops)
  have 5: "p \<in> set (states ?R) \<and> q \<in> set (states ?R) \<longrightarrow>
      fst (addTransition p eps q ?R) \<and>
      get2 (transitions (snd (addTransition p eps q ?R))) p eps = Some (One q) \<and>
      alphabet (snd (addTransition p eps q ?R)) = alphabet ?R"
    by (simp add: addTransition_def Let_def get2_def type_run_ops)
  from 1 2 3 4 5 show ?thesis by blast
qed

theorem dfa_table_single_target_witness:
  "plain_ops [AddState ''q0'', AddState ''q1''] \<and> plain_key ''q0'' \<and>
   ''q0'' \<in> set (states (run_ops DFA [AddState ''q0'', AddState ''q1''])) \<and>
   ''q1'' \<in> set (states (run_ops DFA [AddState ''q0'', AddState ''q1''])) \<and>
   fst (addTransition ''q0'' eps ''q1'' (run_ops DFA [AddState ''q0'', AddState ''q1''])) \<and>
   get2 (transitions (snd (addTransition ''q0'' eps ''q1''
          (run_ops DFA [AddState ''q0'', AddState ''q1''])))) ''q0'' eps = Some (One ''q1'') \<and>
   alphabet (snd (addTransition ''q0'' eps ''q1''
          (run_ops DFA [AddState ''q0'', AddState ''q1'']))) = [] \<and>
   eps \<notin> set (alphabet (run_ops DFA [AddState ''q0'', AddState ''q1'']))"
proof -
  have s: "states (run_ops DFA [AddState ''q0'', AddState ''q1'']) = [''q0'', ''q1'']"
    and a: "alphabet (run_ops DFA [AddState ''q0'', AddState ''q1'']) = []"
    by code_simp+
  have o: "plain_ops [AddState ''q0'', AddState ''q1'']" and k: "plain_key ''q0''"
    by code_simp+
  show ?thesis
    using o k dfa_table_single_target [OF o k, of "''q1''"]
    by (simp add: s a)
qed

section \<open>Serialization\<close>




text \<open>
  The body of the loops of \<open>fromJSON\<close> for one entry. With \<open>json.type === 'DFA'\<close> the
  entry is the target state (an array there is no member of \<open>states\<close>, and
  \<open>addTransition\<close> returns false); otherwise \<open>for ... of\<close> iterates the array (or the
  code units of a string).
\<close>

definition fromJSON_entry :: "kind \<Rightarrow> string \<Rightarrow> automaton \<Rightarrow> string \<times> target \<Rightarrow> automaton" where
  "fromJSON_entry k fromState A e =
     (case e of (symbol, t) \<Rightarrow>
        if k = DFA then (case t of One toState \<Rightarrow> snd (addTransition fromState symbol toState A)
                         | Many ts \<Rightarrow> A)
        else foldl (\<lambda>A toState. snd (addTransition fromState symbol toState A)) A
               (case t of Many ts \<Rightarrow> ts | One s \<Rightarrow> map (\<lambda>c. [c]) s))"



section \<open>The round trip\<close>







lemma obj_get_None_iff: "obj_get ob k = None \<longleftrightarrow> k \<notin> fst ` set ob"
  by (simp add: obj_get_def map_of_eq_None_iff)



text \<open>What one successful call of \<open>addTransition\<close> changes.\<close>

lemma get2_obj_set:
  "get2 (obj_set p row tb) p' a = (if p' = p then obj_get row a else get2 tb p' a)"
  by (simp add: get2_def)

lemma obj_get_row_of: "obj_get (row_of tb p) a = get2 tb p a"
  by (simp add: row_of_def get2_def obj_get_def split: option.splits)















text \<open>
  The representation of an automaton of its kind: Sets and the keys of an object hold
  no duplicates, a DFA stores single states and an NFA stores Sets.
\<close>

definition well_formed :: "automaton \<Rightarrow> bool" where
  "well_formed A \<longleftrightarrow>
     distinct (states A) \<and> distinct (alphabet A) \<and> distinct (finalStates A) \<and>
     keys_distinct (transitions A) \<and>
     (\<forall>r \<in> set (transitions A). \<forall>e \<in> set (snd r).
        case snd e of One q \<Rightarrow> type A = DFA | Many ts \<Rightarrow> type A \<noteq> DFA \<and> distinct ts)"






section \<open>The simulator's determinism check\<close>

text \<open>
  The fields of \<open>AutomatonSimulator\<close> that hold data (the visualizer is an external
  object). A method of the simulator takes the simulator and returns its value with
  the simulator after the call.
\<close>

record simulator =
  automaton :: "automaton option"
  input :: string
  step :: nat
  simulationState :: "snapshot option"
  isRunning :: bool
  animationSpeed :: nat

text \<open>
  \<open>isDeterministic\<close>: the three tests of the source in their order. The loop over the
  states and the symbols of the alphabet skips every pair when there is at most one
  state, and looks at the size of the target Set only when the type is NFA. (The rows
  \<open>transitions[state]\<close> and their entries are own properties when the names of the
  states and the symbols are plain keys.)
\<close>

definition isDeterministic :: "simulator \<Rightarrow> bool \<times> simulator" where
  "isDeterministic S =
     (case automaton S of
        None \<Rightarrow> (False, S)
      | Some A \<Rightarrow>
          (if states A = [] \<or> alphabet A = [] then (True, S)
           else if list_ex (\<lambda>fromState. entry_truthy (get2 (transitions A) fromState eps))
                     (map fst (transitions A))
           then (False, S)
           else if list_ex (\<lambda>state. list_ex (\<lambda>symbol.
                       \<not> length (states A) \<le> 1 \<and> type A = NFA \<and>
                       (case get2 (transitions A) state symbol of
                          Some (Many ts) \<Rightarrow> length ts > 1
                        | _ \<Rightarrow> False)) (alphabet A)) (states A)
           then (False, S)
           else (True, S)))"

text \<open>A simulator after \<open>setAutomaton(A)\<close>.\<close>

definition loaded :: "automaton \<Rightarrow> simulator" where
  "loaded A = \<lparr>automaton = Some A, input = [], step = 0, simulationState = None,
               isRunning = False, animationSpeed = 500\<rparr>"

text \<open>
  An NFA with two transitions of \<open>q0\<close> on \<open>a\<close>, whose alphabet is then replaced by
  \<open>setAlphabet(['b'])\<close>.
\<close>

definition alphabetReplaced :: automaton where
  "alphabetReplaced =
     setAlphabet [''b'']
       (run_ops NFA [AddState ''q0'', AddState ''q1'', AddTransition ''q0'' ''a'' ''q0'',
                     AddTransition ''q0'' ''a'' ''q1''])"


text \<open>
  Claim C9 fails as stated: the automaton above has states and an alphabet, no
  transition on \<open>'\<epsilon>'\<close>, and two targets registered for \<open>(q0, a)\<close>; \<open>isDeterministic\<close>
  returns true, because its loop reads the table only at the symbols of the alphabet.
\<close>

theorem isDeterministic_skips_symbols_outside_alphabet:
  "automaton (loaded alphabetReplaced) = Some alphabetReplaced \<and>
   states alphabetReplaced = [''q0'', ''q1''] \<and>
   alphabet alphabetReplaced = [''b''] \<and>
   transitions alphabetReplaced = [(''q0'', [(''a'', Many [''q0'', ''q1''])])] \<and>
   fst (isDeterministic (loaded alphabetReplaced)) = True"
  by code_simp

lemma list_ex_keys_eps:
  assumes "class_inv A" and "[] \<notin> set (states A)"
  shows "list_ex (\<lambda>fromState. entry_truthy (get2 (transitions A) fromState eps))
           (map fst (transitions A))
         \<longleftrightarrow> (\<exists>q \<in> set (states A). get2 (transitions A) q eps \<noteq> None)"
proof -
  from assms(1) have t: "table_ok (type A) (set (states A)) (transitions A)"
    by (simp add: class_inv_def)
  have tr: "entry_truthy (get2 (transitions A) q eps)" and st: "q \<in> set (states A)"
    if "get2 (transitions A) q eps \<noteq> None" for q
  proof -
    from that obtain row u where r: "obj_get (transitions A) q = Some row"
      and u: "obj_get row eps = Some u"
      by (auto simp: get2_def split: option.splits)
    then have m: "(q, row) \<in> set (transitions A)" "(eps, u) \<in> set row"
      by (auto dest: obj_get_in_set)
    with t have e: "entry_ok (type A) (set (states A)) u" and q: "q \<in> set (states A)"
      unfolding table_ok_def by fastforce+
    show "q \<in> set (states A)" by (rule q)
    from r u have g: "get2 (transitions A) q eps = Some u" by (simp add: get2_def)
    show "entry_truthy (get2 (transitions A) q eps)"
    proof (cases u)
      case (One s)
      with e have "s \<in> set (states A)" by (simp add: entry_ok_def)
      with assms(2) have "s \<noteq> []" by auto
      with One g show ?thesis by (simp add: truthy_def)
    next
      case (Many ts)
      with g show ?thesis by simp
    qed
  qed
  have k: "q \<in> fst ` set (transitions A)" if "get2 (transitions A) q eps \<noteq> None" for q
  proof -
    from that have "obj_get (transitions A) q \<noteq> None"
      by (auto simp: get2_def split: option.splits)
    then show ?thesis by (simp add: obj_get_None_iff)
  qed
  have n: "get2 (transitions A) q eps \<noteq> None" if "entry_truthy (get2 (transitions A) q eps)" for q
    using that by (cases "get2 (transitions A) q eps") simp_all
  show ?thesis
    unfolding list_ex_iff using tr st k n by (metis list.set_map)
qed

lemma members_at_most_one:
  assumes "class_inv A" and "well_formed A" and "length (states A) \<le> 1"
  shows "length (members (get2 (transitions A) q a)) \<le> 1"
proof (cases "get2 (transitions A) q a")
  case None
  then show ?thesis by simp
next
  case (Some u)
  then obtain row where r: "obj_get (transitions A) q = Some row" and u: "obj_get row a = Some u"
    by (auto simp: get2_def split: option.splits)
  then have m: "(q, row) \<in> set (transitions A)" "(a, u) \<in> set row"
    by (auto dest: obj_get_in_set)
  show ?thesis
  proof (cases u)
    case (One s)
    with Some show ?thesis by simp
  next
    case (Many ts)
    from assms(1) m Many have "set ts \<subseteq> set (states A)"
      unfolding class_inv_def table_ok_def entry_ok_def by fastforce
    moreover from assms(2) m Many have "distinct ts"
      unfolding well_formed_def by fastforce
    ultimately have "length ts \<le> length (states A)"
      by (metis card_mono distinct_card List.finite_set card_length le_trans)
    with assms(3) Some Many show ?thesis by simp
  qed
qed

text \<open>
  Claim C9, amended. For a loaded automaton that satisfies the invariant of the class,
  has no state named by the empty string and holds plain keys as the names of its states
  and symbols, \<open>isDeterministic\<close> returns true when there
  is no state or no symbol in the alphabet; otherwise false when a state has a
  transition on \<open>'\<epsilon>'\<close>; otherwise false when a state has more than one target on a
  symbol of the alphabet; and true in all remaining cases. The simulator, and with it
  the automaton and its type, is the same after the call.
\<close>

theorem isDeterministic_classifies:
  assumes "automaton S = Some A" and "class_inv A" and "well_formed A"
    and "[] \<notin> set (states A)" and "plain_names A"
  shows "isDeterministic S =
     ((if states A = [] \<or> alphabet A = [] then True
       else if \<exists>q \<in> set (states A). get2 (transitions A) q eps \<noteq> None then False
       else if \<exists>q \<in> set (states A). \<exists>a \<in> set (alphabet A).
                 length (members (get2 (transitions A) q a)) > 1 then False
       else True), S)"
proof -
  have e: "list_ex (\<lambda>fromState. entry_truthy (get2 (transitions A) fromState eps))
             (map fst (transitions A))
           \<longleftrightarrow> (\<exists>q \<in> set (states A). get2 (transitions A) q eps \<noteq> None)"
    using assms(2,4) by (rule list_ex_keys_eps)
  have c: "(case get2 (transitions A) q a of Some (Many ts) \<Rightarrow> length ts > 1 | _ \<Rightarrow> False)
           \<longleftrightarrow> length (members (get2 (transitions A) q a)) > 1" for q a
    by (cases "get2 (transitions A) q a" rule: members.cases) simp_all
  have n: "type A = NFA" if "length (members (get2 (transitions A) q a)) > 1" for q a
  proof -
    from that obtain ts where g: "get2 (transitions A) q a = Some (Many ts)"
      by (cases "get2 (transitions A) q a" rule: members.cases) auto
    then obtain row where "(q, row) \<in> set (transitions A)" "(a, Many ts) \<in> set row"
      by (auto simp: get2_def split: option.splits dest: obj_get_in_set)
    with assms(2) have "type A \<noteq> DFA"
      unfolding class_inv_def table_ok_def entry_ok_def by fastforce
    then show ?thesis by (cases "type A") simp_all
  qed
  have m: "list_ex (\<lambda>state. list_ex (\<lambda>symbol.
                       \<not> length (states A) \<le> 1 \<and> type A = NFA \<and>
                       (case get2 (transitions A) state symbol of
                          Some (Many ts) \<Rightarrow> length ts > 1
                        | _ \<Rightarrow> False)) (alphabet A)) (states A)
           \<longleftrightarrow> (\<exists>q \<in> set (states A). \<exists>a \<in> set (alphabet A).
                 length (members (get2 (transitions A) q a)) > 1)"
    unfolding list_ex_iff c
    using n members_at_most_one [OF assms(2,3)] by (meson not_le)
  have d: "isDeterministic S =
          (if states A = [] \<or> alphabet A = [] then (True, S)
           else if list_ex (\<lambda>fromState. entry_truthy (get2 (transitions A) fromState eps))
                     (map fst (transitions A))
           then (False, S)
           else if list_ex (\<lambda>state. list_ex (\<lambda>symbol.
                       \<not> length (states A) \<le> 1 \<and> type A = NFA \<and>
                       (case get2 (transitions A) state symbol of
                          Some (Many ts) \<Rightarrow> length ts > 1
                        | _ \<Rightarrow> False)) (alphabet A)) (states A)
           then (False, S)
           else (True, S))"
    by (simp only: isDeterministic_def assms(1) option.case)
  show ?thesis
    unfolding d e m by simp
qed

theorem isDeterministic_classifies_witness:
  "automaton (loaded (run_ops NFA exampleOps)) = Some (run_ops NFA exampleOps) \<and>
   class_inv (run_ops NFA exampleOps) \<and> well_formed (run_ops NFA exampleOps) \<and>
   [] \<notin> set (states (run_ops NFA exampleOps)) \<and>
   plain_names (run_ops NFA exampleOps) \<and>
   isDeterministic (loaded (run_ops NFA exampleOps)) = (False, loaded (run_ops NFA exampleOps)) \<and>
   isDeterministic (loaded createSampleAutomaton) = (True, loaded createSampleAutomaton)"
proof -
  have v: "run_ops NFA exampleOps =
     \<lparr>type = NFA, states = [''q0'', ''q1''], alphabet = [''a'', ''b''],
      transitions = [(''q0'', [(''a'', Many [''q1'', ''q0''])]), (''q1'', [(''b'', Many [''q1''])])],
      initialState = Some ''q1'', finalStates = [''q1'']\<rparr>"
    by code_simp
  have a1: "automaton (loaded (run_ops NFA exampleOps)) = Some (run_ops NFA exampleOps)"
    and a2: "automaton (loaded createSampleAutomaton) = Some createSampleAutomaton"
    by (simp_all add: loaded_def)
  have c1: "class_inv (run_ops NFA exampleOps)" by (rule class_inv_run_ops)
  have w1: "well_formed (run_ops NFA exampleOps)" by code_simp
  have s1: "[] \<notin> set (states (run_ops NFA exampleOps))" by (simp add: v)
  have c2: "class_inv createSampleAutomaton"
    by (simp add: class_inv_def createSampleAutomaton_value table_ok_def entry_ok_def)
  have w2: "well_formed createSampleAutomaton" by code_simp
  have s2: "[] \<notin> set (states createSampleAutomaton)" by (simp add: createSampleAutomaton_value)
  have e: "eps \<noteq> ''a''" "eps \<noteq> ''b''" by (simp_all add: eps_def)
  have p1: "plain_names (run_ops NFA exampleOps)" and p2: "plain_names createSampleAutomaton"
    by code_simp+
  have r1: "isDeterministic (loaded (run_ops NFA exampleOps)) = (False, loaded (run_ops NFA exampleOps))"
    using isDeterministic_classifies [OF a1 c1 w1 s1 p1] e
    by (simp add: v get2_def obj_get_def)
  have r2: "isDeterministic (loaded createSampleAutomaton) = (True, loaded createSampleAutomaton)"
    using isDeterministic_classifies [OF a2 c2 w2 s2 p2] e
    by (simp add: createSampleAutomaton_value get2_def obj_get_def)
  from a1 c1 w1 s1 p1 r1 r2 show ?thesis by simp
qed

section \<open>clone and the subset construction\<close>

text \<open>
  \<open>clone\<close>: the states, the alphabet, the initial state and the final states are copied,
  and every transition is added by \<open>addTransition\<close>; the body of its loops over the table
  is that of \<open>fromJSON\<close>.
\<close>

definition clone :: "automaton \<Rightarrow> automaton" where
  "clone A =
     (let c = new_Automaton (type A);
          c = foldl (\<lambda>B state. addState state B) c (states A);
          c = setAlphabet (alphabet A) c;
          c = c\<lparr>initialState := initialState A\<rparr>;
          c = foldl (\<lambda>B state. toggleFinalState state True B) c (finalStates A)
      in foldl (\<lambda>B (fromState, row). foldl (fromJSON_entry (type A) fromState) B row)
           c (transitions A))"

text \<open>The loop with \<open>break\<close> that looks for a final state in a state set.\<close>

definition has_final :: "automaton \<Rightarrow> string list \<Rightarrow> bool" where
  "has_final A stateSet = list_ex (\<lambda>q. q \<in> set (finalStates A)) stateSet"

text \<open>
  The body of the loop of \<open>convertToDFA\<close> over the alphabet, for the state set
  \<open>currentStateSet\<close>: the DFA and the queue \<open>unprocessed\<close> before and after one symbol.
\<close>

definition convert_symbol ::
  "automaton \<Rightarrow> string list \<Rightarrow> string list list \<Rightarrow> automaton \<times> string list list \<Rightarrow> string
     \<Rightarrow> automaton \<times> string list list" where
  "convert_symbol A currentStateSet processed du symbol =
     (case du of (dfa, unprocessed) \<Rightarrow>
        if symbol = eps then (dfa, unprocessed)
        else
          let nextStateSet = getNextStates A currentStateSet symbol;
              nextStateName = getSetName nextStateSet
          in if nextStateSet = [] then (dfa, unprocessed)
             else
               let (dfa1, unprocessed1) =
                     (if nextStateName \<in> set (states dfa) then (dfa, unprocessed)
                      else
                        let d = addState nextStateName dfa;
                            d = (if has_final A nextStateSet
                                 then toggleFinalState nextStateName True d else d);
                            alreadyProcessed =
                              list_ex (\<lambda>s. getSetName s = nextStateName) processed;
                            alreadyQueued =
                              list_ex (\<lambda>s. getSetName s = nextStateName) unprocessed
                        in (d, if \<not> alreadyProcessed \<and> \<not> alreadyQueued
                               then unprocessed @ [nextStateSet] else unprocessed))
               in (snd (addTransition (getSetName currentStateSet) symbol nextStateName dfa1),
                   unprocessed1))"

text \<open>
  The \<open>while\<close> loop of \<open>convertToDFA\<close>. Nothing bounds the number of its rounds, so the
  model counts them: with \<open>n\<close> rounds allowed the loop returns the DFA when the queue
  empties within \<open>n\<close> rounds, and \<open>None\<close> when it does not.
\<close>

fun convert_loop ::
  "nat \<Rightarrow> automaton \<Rightarrow> automaton \<Rightarrow> string list list \<Rightarrow> string list list \<Rightarrow> automaton option" where
  "convert_loop n A dfa [] processed = Some dfa"
| "convert_loop 0 A dfa (currentStateSet # unprocessed) processed = None"
| "convert_loop (Suc n) A dfa (currentStateSet # unprocessed) processed =
     (case foldl (convert_symbol A currentStateSet (processed @ [currentStateSet]))
             (dfa, unprocessed) (alphabet A) of
        (dfa', unprocessed') \<Rightarrow>
          convert_loop n A dfa' unprocessed' (processed @ [currentStateSet]))"

text \<open>
  \<open>convertToDFA\<close> with \<open>n\<close> rounds of its loop allowed. (The table \<open>epsilonClosures\<close> the
  source fills first is not read again.)
\<close>

definition convertToDFA :: "nat \<Rightarrow> automaton \<Rightarrow> automaton option" where
  "convertToDFA n A =
     (if type A = DFA then Some (clone A)
      else
        let dfa = new_Automaton DFA;
            initialClosure = epsilonClosure A [js_str (initialState A)];
            initialStateName = getSetName initialClosure;
            dfa = addState initialStateName dfa;
            dfa = setInitialState initialStateName dfa;
            dfa = (if has_final A initialClosure
                   then toggleFinalState initialStateName True dfa else dfa)
        in map_option (setAlphabet (filter (\<lambda>symbol. symbol \<noteq> eps) (alphabet A)))
             (convert_loop n A dfa [initialClosure] []))"

section \<open>Minimization\<close>

text \<open>The targets of the row of a state, in the order of its symbols.\<close>

definition row_targets :: "automaton \<Rightarrow> string \<Rightarrow> string list" where
  "row_targets A q =
     List.map_filter (\<lambda>(symbol, t). case t of One s \<Rightarrow> Some s | Many ts \<Rightarrow> None)
       (row_of (transitions A) q)"

text \<open>Every target of the table: the states the traversal can add.\<close>

definition target_universe :: "automaton \<Rightarrow> string set" where
  "target_universe A = (\<Union>p \<in> set (transitions A). set (row_targets A (fst p)))"

text \<open>
  The loop of \<open>_getReachableStates\<close>: the first state of the queue is taken, and every
  target of its row that is not yet reachable is added to the Set and to the queue.
\<close>

function reach_loop :: "automaton \<Rightarrow> string list \<Rightarrow> string list \<Rightarrow> string list" where
  "reach_loop A reachable queue =
     (case queue of
        [] \<Rightarrow> reachable
      | q # rest \<Rightarrow>
          (case push_new (row_targets A q) (reachable, rest) of
             (reachable', queue') \<Rightarrow> reach_loop A reachable' queue'))"
  by pat_completeness auto

lemma row_targets_universe: "set (row_targets A q) \<subseteq> target_universe A"
proof (cases "obj_get (transitions A) q")
  case None
  then show ?thesis by (simp add: row_targets_def row_of_def)
next
  case (Some row)
  then have "(q, row) \<in> set (transitions A)" by (rule obj_get_in_set)
  then show ?thesis unfolding target_universe_def by force
qed

lemma finite_target_universe: "finite (target_universe A)"
  unfolding target_universe_def by auto

termination reach_loop
proof (relation "inv_image (less_than <*lex*> less_than)
          (\<lambda>(A, r, q). (card (target_universe A - set r), length q))", goal_cases)
  case 1
  show ?case by (intro wf_inv_image wf_lex_prod wf_less_than)
next
  case (2 A reachable queue q rest r' q')
  let ?ts = "row_targets A q"
  show ?case
  proof (cases "set ?ts \<subseteq> set reachable")
    case True
    with 2 have "r' = reachable" "q' = rest"
      by (simp_all add: push_new_id)
    with 2 show ?thesis by simp
  next
    case False
    have "set r' = set reachable \<union> set ?ts"
      using 2(2) [symmetric] push_new_set [of ?ts reachable rest] by simp
    then have "target_universe A - set r' \<subset> target_universe A - set reachable"
      using False row_targets_universe [of A q] by auto
    then have "card (target_universe A - set r') < card (target_universe A - set reachable)"
      by (intro psubset_card_mono) (simp_all add: finite_target_universe)
    then show ?thesis by simp
  qed
qed

declare reach_loop.simps [simp del]

text \<open>
  \<open>_getReachableStates\<close>: the Set and the queue start with the initial state (with a null
  initial state the source starts from null, which reads the row \<open>null\<close>).
\<close>

definition getReachableStates :: "automaton \<Rightarrow> string list" where
  "getReachableStates A =
     reach_loop A [js_str (initialState A)] [js_str (initialState A)]"

text \<open>
  The index \<open>targetPartitionIndex\<close> of \<open>_splitPartition\<close>: the first partition that has
  the target, counted from \<open>i\<close>, and \<open>-1\<close> when no partition has it.
\<close>

fun partition_index :: "string list list \<Rightarrow> string \<Rightarrow> nat \<Rightarrow> int" where
  "partition_index [] t i = - 1"
| "partition_index (b # bs) t i = (if t \<in> set b then int i else partition_index bs t (Suc i))"

definition target_index :: "automaton \<Rightarrow> string list list \<Rightarrow> string \<Rightarrow> string \<Rightarrow> int" where
  "target_index A partitions q symbol =
     (case dfa_next A q symbol of
        None \<Rightarrow> - 1
      | Some targetState \<Rightarrow> partition_index partitions targetState 0)"

text \<open>
  The Map \<open>groups\<close>: its entries in the order of their creation; a state joins the Set
  of its key, or starts a new Set.
\<close>

definition group_add :: "int \<Rightarrow> string \<Rightarrow> (int \<times> string list) list \<Rightarrow> (int \<times> string list) list" where
  "group_add k q groups =
     (if k \<in> fst ` set groups
      then map (\<lambda>g. if fst g = k then (k, set_add q (snd g)) else g) groups
      else groups @ [(k, [q])])"

definition group_states ::
  "automaton \<Rightarrow> string list list \<Rightarrow> string \<Rightarrow> string list \<Rightarrow> (int \<times> string list) list" where
  "group_states A partitions symbol block =
     foldl (\<lambda>groups q. group_add (target_index A partitions q symbol) q groups) [] block"

text \<open>
  The loop of \<open>_splitPartition\<close> over the alphabet, for the partition \<open>block\<close>: the
  first symbol that splits it wins.
\<close>

fun split_symbols ::
  "automaton \<Rightarrow> string list \<Rightarrow> string list list \<Rightarrow> string list \<Rightarrow> string list list" where
  "split_symbols A block partitions [] = [block]"
| "split_symbols A block partitions (symbol # symbols) =
     (let groups = group_states A partitions symbol block
      in if length groups > 1 then map snd groups
         else split_symbols A block partitions symbols)"

definition splitPartition :: "automaton \<Rightarrow> string list \<Rightarrow> string list list \<Rightarrow> string list list" where
  "splitPartition A block partitions =
     (if length block \<le> 1 then [block]
      else split_symbols A block partitions (alphabet A))"

text \<open>One round of the refinement: \<open>newPartitions\<close> and the flag \<open>changed\<close>.\<close>

definition refine_round :: "automaton \<Rightarrow> string list list \<Rightarrow> string list list \<times> bool" where
  "refine_round A partitions =
     foldl (\<lambda>(newPartitions, changed) block.
              let splits = splitPartition A block partitions
              in if length splits > 1 then (newPartitions @ splits, True)
                 else (newPartitions @ [block], changed))
       ([], False) partitions"

function refine :: "automaton \<Rightarrow> string list list \<Rightarrow> string list list" where
  "refine A partitions =
     (case refine_round A partitions of
        (newPartitions, changed) \<Rightarrow> if changed then refine A newPartitions else newPartitions)"
  by pat_completeness auto

section \<open>The groups of a split\<close>

definition groups_ok :: "(string \<Rightarrow> int) \<Rightarrow> (int \<times> string list) list \<Rightarrow> bool" where
  "groups_ok f groups \<longleftrightarrow>
     distinct (map fst groups) \<and>
     (\<forall>g \<in> set groups. snd g \<noteq> [] \<and> distinct (snd g) \<and> (\<forall>q \<in> set (snd g). f q = fst g))"

definition members_of :: "('k \<times> string list) list \<Rightarrow> string set" where
  "members_of groups = (\<Union>g \<in> set groups. set (snd g))"

definition total_size :: "('k \<times> string list) list \<Rightarrow> nat" where
  "total_size groups = sum_list (map (\<lambda>g. length (snd g)) groups)"

lemma group_add_new:
  "k \<notin> fst ` set groups \<Longrightarrow> group_add k q groups = groups @ [(k, [q])]"
  by (simp add: group_add_def)

lemma map_fst_replace:
  "map fst (map (\<lambda>g. if fst g = k then (k, h (snd g)) else g) groups) = map fst groups"
  by (induction groups) auto

lemma group_add_ok:
  assumes "groups_ok f groups"
  shows "groups_ok f (group_add (f q) q groups)"
proof (cases "f q \<in> fst ` set groups")
  case False
  with assms show ?thesis
    by (auto simp: groups_ok_def group_add_new)
next
  case True
  let ?r = "map (\<lambda>g. if fst g = f q then (f q, set_add q (snd g)) else g) groups"
  have e: "group_add (f q) q groups = ?r" using True by (simp add: group_add_def)
  have d: "distinct (map fst ?r)"
    using assms by (simp only: map_fst_replace groups_ok_def)
  have "\<forall>g \<in> set ?r. snd g \<noteq> [] \<and> distinct (snd g) \<and> (\<forall>x \<in> set (snd g). f x = fst g)"
    using assms by (auto simp: groups_ok_def)
  with d show ?thesis unfolding e groups_ok_def by blast
qed

lemma members_of_replace:
  "k \<in> fst ` set groups \<Longrightarrow>
   members_of (map (\<lambda>g. if fst g = k then (k, set_add q (snd g)) else g) groups)
     = insert q (members_of groups)"
  by (induction groups) (auto simp: members_of_def split: if_splits)

lemma members_of_group_add: "members_of (group_add k q groups) = insert q (members_of groups)"
proof (cases "k \<in> fst ` set groups")
  case True
  then show ?thesis by (simp add: group_add_def members_of_replace)
next
  case False
  then show ?thesis by (simp add: group_add_new) (simp add: members_of_def)
qed

lemma total_size_replace:
  "total_size (map (\<lambda>g. if fst g = k then (k, set_add q (snd g)) else g) groups)
     \<le> total_size groups + length (filter (\<lambda>g. fst g = k) groups)"
  by (induction groups) (auto simp: total_size_def set_add_def)

lemma total_size_group_add:
  assumes "distinct (map fst groups)"
  shows "total_size (group_add k q groups) \<le> Suc (total_size groups)"
proof (cases "k \<in> fst ` set groups")
  case False
  then show ?thesis by (simp add: group_add_new) (simp add: total_size_def)
next
  case True
  have "length (filter (\<lambda>g. fst g = k) groups) \<le> 1"
    using assms by (induction groups) (auto simp: filter_empty_conv image_iff)
  with total_size_replace [of k q groups] True show ?thesis
    by (simp add: group_add_def)
qed

lemma fold_group_add:
  assumes "groups_ok f acc"
  shows "groups_ok f (foldl (\<lambda>groups q. group_add (f q) q groups) acc xs) \<and>
         members_of (foldl (\<lambda>groups q. group_add (f q) q groups) acc xs)
           = members_of acc \<union> set xs \<and>
         total_size (foldl (\<lambda>groups q. group_add (f q) q groups) acc xs)
           \<le> total_size acc + length xs"
  using assms
proof (induction xs arbitrary: acc)
  case Nil
  then show ?case by simp
next
  case (Cons x xs)
  have ok: "groups_ok f (group_add (f x) x acc)" using Cons.prems by (rule group_add_ok)
  have ts: "total_size (group_add (f x) x acc) \<le> Suc (total_size acc)"
    using Cons.prems by (intro total_size_group_add) (simp add: groups_ok_def)
  from Cons.IH [OF ok] ts show ?case
    by (auto simp: members_of_group_add)
qed

lemma group_states_props:
  shows "groups_ok (\<lambda>q. target_index A partitions q symbol) (group_states A partitions symbol block)"
    and "members_of (group_states A partitions symbol block) = set block"
    and "total_size (group_states A partitions symbol block) \<le> length block"
proof -
  have ok: "groups_ok (\<lambda>q. target_index A partitions q symbol) []" by (simp add: groups_ok_def)
  from fold_group_add [OF ok, of block]
  show "groups_ok (\<lambda>q. target_index A partitions q symbol) (group_states A partitions symbol block)"
    and "members_of (group_states A partitions symbol block) = set block"
    and "total_size (group_states A partitions symbol block) \<le> length block"
    by (simp_all add: group_states_def members_of_def total_size_def)
qed


section \<open>The rounds of the refinement\<close>

text \<open>What a round puts in place of a block: its split when there is one.\<close>

definition is_split :: "automaton \<Rightarrow> string list list \<Rightarrow> string list \<Rightarrow> bool" where
  "is_split A partitions block \<longleftrightarrow> length (splitPartition A block partitions) > 1"

definition pieces :: "automaton \<Rightarrow> string list list \<Rightarrow> string list \<Rightarrow> string list list" where
  "pieces A partitions block =
     (if is_split A partitions block then splitPartition A block partitions else [block])"

lemma refine_round_foldl:
  "foldl (\<lambda>(newPartitions, changed) block.
              let splits = splitPartition A block partitions
              in if length splits > 1 then (newPartitions @ splits, True)
                 else (newPartitions @ [block], changed)) (acc, ch) xs
   = (acc @ concat (map (pieces A partitions) xs), ch \<or> list_ex (is_split A partitions) xs)"
  by (induction xs arbitrary: acc ch) (auto simp: pieces_def is_split_def Let_def)

lemma refine_round_eq:
  "refine_round A partitions =
     (concat (map (pieces A partitions) partitions), list_ex (is_split A partitions) partitions)"
  unfolding refine_round_def refine_round_foldl by simp

text \<open>The measure of the refinement: the number of states beyond one in every block.\<close>

definition slack :: "string list list \<Rightarrow> nat" where
  "slack partitions = sum_list (map (\<lambda>block. length block - 1) partitions)"

lemma slack_append: "slack (xs @ ys) = slack xs + slack ys"
  by (simp add: slack_def)

lemma slack_groups:
  "\<forall>g \<in> set groups. snd g \<noteq> [] \<Longrightarrow> slack (map snd groups) + length groups = total_size groups"
  by (induction groups) (auto simp: slack_def total_size_def Suc_leI)

lemma split_symbols_cases:
  "split_symbols A block partitions symbols = [block] \<or>
   (\<exists>symbol \<in> set symbols.
      split_symbols A block partitions symbols = map snd (group_states A partitions symbol block) \<and>
      length (group_states A partitions symbol block) > 1)"
  by (induction symbols) (auto simp: Let_def)

lemma splitPartition_cases:
  "splitPartition A block partitions = [block] \<or>
   (\<exists>symbol \<in> set (alphabet A).
      splitPartition A block partitions = map snd (group_states A partitions symbol block) \<and>
      length (group_states A partitions symbol block) > 1)"
  using split_symbols_cases [of A block partitions "alphabet A"]
  by (auto simp: splitPartition_def)

lemma slack_pieces:
  "slack (pieces A partitions block) \<le> slack [block]"
  "is_split A partitions block \<Longrightarrow> slack (pieces A partitions block) < slack [block]"
proof -
  have "slack (pieces A partitions block) \<le> slack [block] \<and>
        (is_split A partitions block \<longrightarrow> slack (pieces A partitions block) < slack [block])"
  proof (cases "is_split A partitions block")
    case False
    then show ?thesis by (simp add: pieces_def)
  next
    case True
    then have "splitPartition A block partitions \<noteq> [block]"
      by (auto simp: is_split_def)
    with splitPartition_cases [of A block partitions] obtain symbol where
      e: "splitPartition A block partitions = map snd (group_states A partitions symbol block)"
      and l: "length (group_states A partitions symbol block) > 1"
      by auto
    let ?g = "group_states A partitions symbol block"
    have ne: "\<forall>g \<in> set ?g. snd g \<noteq> []"
      using group_states_props(1) [of A partitions symbol block] by (simp add: groups_ok_def)
    have "slack (map snd ?g) + length ?g = total_size ?g" using ne by (rule slack_groups)
    moreover have "total_size ?g \<le> length block" by (rule group_states_props(3))
    ultimately have "slack (map snd ?g) < length block - 1" using l by linarith
    with True e show ?thesis by (simp add: pieces_def slack_def)
  qed
  then show "slack (pieces A partitions block) \<le> slack [block]"
    and "is_split A partitions block \<Longrightarrow> slack (pieces A partitions block) < slack [block]"
    by simp_all
qed

lemma slack_round:
  "slack (concat (map (pieces A partitions) xs)) \<le> slack xs"
  "list_ex (is_split A partitions) xs \<Longrightarrow> slack (concat (map (pieces A partitions) xs)) < slack xs"
proof -
  have "slack (concat (map (pieces A partitions) xs)) \<le> slack xs \<and>
        (list_ex (is_split A partitions) xs \<longrightarrow>
           slack (concat (map (pieces A partitions) xs)) < slack xs)"
  proof (induction xs)
    case Nil
    show ?case by simp
  next
    case (Cons x xs)
    have a: "slack (x # xs) = slack [x] + slack xs" by (simp add: slack_def)
    from Cons slack_pieces [of A partitions x] show ?case
      by (auto simp: slack_append a)
  qed
  then show "slack (concat (map (pieces A partitions) xs)) \<le> slack xs"
    and "list_ex (is_split A partitions) xs \<Longrightarrow>
         slack (concat (map (pieces A partitions) xs)) < slack xs"
    by simp_all
qed

termination refine
proof (relation "measure (\<lambda>(A, partitions). slack partitions)", goal_cases)
  case 1
  show ?case by simp
next
  case (2 A partitions newPartitions changed)
  then show ?case
    by (simp add: refine_round_eq slack_round(2))
qed

declare refine.simps [simp del]

section \<open>The minimized automaton\<close>

text \<open>The decimal digits of a number, as the template string \<open>q${i}\<close> writes them.\<close>

fun string_of_nat :: "nat \<Rightarrow> string" where
  "string_of_nat n =
     (if n < 10 then [char_of (48 + n)]
      else string_of_nat (n div 10) @ [char_of (48 + n mod 10)])"

declare string_of_nat.simps [simp del]

definition partition_name :: "nat \<Rightarrow> string" where
  "partition_name i = ''q'' @ string_of_nat i"

text \<open>
  The first loop of step 4 over the partitions, counted from \<open>i\<close>: the new state is
  added, every state of the partition is mapped to it in \<open>stateMap\<close>, and the new state
  is made initial and final as the partition has the initial state and a final state.
  (\<open>stateMap\<close> is a plain object, assigned and read at the names of the states: own
  properties when these are plain keys.)
\<close>

fun add_partition_states ::
  "automaton \<Rightarrow> nat \<Rightarrow> string list list \<Rightarrow> automaton \<times> string obj \<Rightarrow> automaton \<times> string obj" where
  "add_partition_states A i [] ms = ms"
| "add_partition_states A i (block # blocks) (minimized, stateMap) =
     (let partitionState = partition_name i;
          minimized = addState partitionState minimized;
          stateMap = foldl (\<lambda>m q. obj_set q partitionState m) stateMap block;
          minimized = (if (case initialState A of None \<Rightarrow> False | Some q \<Rightarrow> q \<in> set block)
                       then setInitialState partitionState minimized else minimized);
          minimized = (if has_final A block
                       then toggleFinalState partitionState True minimized else minimized)
      in add_partition_states A (Suc i) blocks (minimized, stateMap))"

text \<open>
  The second loop of step 4, for one partition: the transitions of its first state,
  the representative, on the symbols of the alphabet, between the new states.
  \<open>addTransition\<close> with an undefined state returns false.
\<close>

definition add_partition_transitions ::
  "automaton \<Rightarrow> string obj \<Rightarrow> automaton \<Rightarrow> string list \<Rightarrow> automaton" where
  "add_partition_transitions A stateMap minimized block =
     (case block of
        [] \<Rightarrow> minimized
      | representativeState # _ \<Rightarrow>
          if obj_get (transitions A) representativeState = None then minimized
          else foldl (\<lambda>M symbol.
                  case dfa_next A representativeState symbol of
                    None \<Rightarrow> M
                  | Some targetState \<Rightarrow>
                      (case (obj_get stateMap representativeState, obj_get stateMap targetState) of
                         (Some partitionState, Some targetPartitionState) \<Rightarrow>
                           snd (addTransition partitionState symbol targetPartitionState M)
                       | _ \<Rightarrow> M))
                 minimized (alphabet A))"

text \<open>The steps of \<open>minimize\<close> on an automaton of type DFA.\<close>

definition initial_partitions :: "automaton \<Rightarrow> string list list" where
  "initial_partitions A =
     (let reachable = getReachableStates A;
          finalStatesSet = new_Set (finalStates A);
          nonFinalStatesSet = new_Set (filter (\<lambda>q. q \<notin> set (finalStates A)) reachable)
      in (if finalStatesSet \<noteq> [] then [finalStatesSet] else []) @
         (if nonFinalStatesSet \<noteq> [] then [nonFinalStatesSet] else []))"

definition minimizeDFA :: "automaton \<Rightarrow> automaton" where
  "minimizeDFA A =
     (let partitions = refine A (initial_partitions A);
          (minimized, stateMap) =
             add_partition_states A 0 partitions (new_Automaton DFA, []);
          minimized = foldl (add_partition_transitions A stateMap) minimized partitions
      in setAlphabet (alphabet A) minimized)"

text \<open>
  \<open>minimize\<close>: an automaton that is not of type DFA is converted first, with \<open>n\<close> rounds
  of the loop of \<open>convertToDFA\<close> allowed.
\<close>

definition minimize :: "nat \<Rightarrow> automaton \<Rightarrow> automaton option" where
  "minimize n A =
     (if type A \<noteq> DFA then map_option minimizeDFA (convertToDFA n A)
      else Some (minimizeDFA A))"

section \<open>Reachable states\<close>

lemma push_new_queue:
  "set (snd (push_new ts (cl, st))) = set st \<union> (set ts - set cl)"
  by (induction ts arbitrary: cl st) auto

lemma dfa_next_row_targets: "dfa_next A p a = Some t \<Longrightarrow> t \<in> set (row_targets A p)"
proof -
  assume "dfa_next A p a = Some t"
  then have "get2 (transitions A) p a = Some (One t)"
    by (auto simp: dfa_next_def split: option.splits target.splits if_splits)
  then have "obj_get (row_of (transitions A) p) a = Some (One t)"
    by (simp add: obj_get_row_of)
  then have "(a, One t) \<in> set (row_of (transitions A) p)" by (rule obj_get_in_set)
  then show ?thesis
    unfolding row_targets_def in_set_map_filter by force
qed

text \<open>A list of states that holds every target of its states.\<close>

definition closed_under :: "automaton \<Rightarrow> string set \<Rightarrow> bool" where
  "closed_under A R \<longleftrightarrow> (\<forall>p \<in> R. set (row_targets A p) \<subseteq> R)"

lemma reach_loop_closed:
  assumes "\<forall>p \<in> set reachable. p \<in> set queue \<or> set (row_targets A p) \<subseteq> set reachable"
  shows "set reachable \<subseteq> set (reach_loop A reachable queue) \<and>
         closed_under A (set (reach_loop A reachable queue))"
  using assms
proof (induction A reachable queue rule: reach_loop.induct)
  case (1 A reachable queue)
  show ?case
  proof (cases queue)
    case Nil
    with "1.prems" show ?thesis
      by (simp add: reach_loop.simps [of A reachable "[]"] closed_under_def)
  next
    case (Cons q rest)
    obtain r' q' where pn: "push_new (row_targets A q) (reachable, rest) = (r', q')"
      by (cases "push_new (row_targets A q) (reachable, rest)")
    have sr: "set r' = set reachable \<union> set (row_targets A q)"
      using push_new_set [of "row_targets A q" reachable rest] pn by simp
    have sq: "set q' = set rest \<union> (set (row_targets A q) - set reachable)"
      using push_new_queue [of "row_targets A q" reachable rest] pn by simp
    have inv: "\<forall>p \<in> set r'. p \<in> set q' \<or> set (row_targets A p) \<subseteq> set r'"
    proof
      fix p assume p: "p \<in> set r'"
      show "p \<in> set q' \<or> set (row_targets A p) \<subseteq> set r'"
      proof (cases "p \<in> set reachable")
        case True
        with "1.prems" Cons have "p = q \<or> p \<in> set rest \<or> set (row_targets A p) \<subseteq> set reachable"
          by auto
        then show ?thesis using sr sq by auto
      next
        case False
        with p sr sq show ?thesis by auto
      qed
    qed
    have e: "reach_loop A reachable queue = reach_loop A r' q'"
      using Cons pn by (simp add: reach_loop.simps [of A reachable "q # rest"])
    from "1.IH" [OF Cons pn [symmetric] inv] sr show ?thesis
      unfolding e by auto
  qed
qed

lemma getReachableStates_closed:
  "js_str (initialState A) \<in> set (getReachableStates A)"
  "closed_under A (set (getReachableStates A))"
  using reach_loop_closed [of "[js_str (initialState A)]" "[js_str (initialState A)]" A]
  by (simp_all add: getReachableStates_def)

lemma closed_under_step:
  "closed_under A R \<Longrightarrow> p \<in> R \<Longrightarrow> dfa_next A p a = Some t \<Longrightarrow> t \<in> R"
  using dfa_next_row_targets [of A p a t] by (auto simp: closed_under_def)

section \<open>Invariants of the partitions\<close>

text \<open>The states of a list of blocks, and blocks that share no state.\<close>

definition states_of :: "string list list \<Rightarrow> string set" where
  "states_of partitions = (\<Union>block \<in> set partitions. set block)"

fun disjoint_blocks :: "string list list \<Rightarrow> bool" where
  "disjoint_blocks [] = True"
| "disjoint_blocks (block # blocks) =
     (set block \<inter> states_of blocks = {} \<and> disjoint_blocks blocks)"

lemma states_of_simps [simp]:
  "states_of [] = {}"
  "states_of (b # bs) = set b \<union> states_of bs"
  "states_of (xs @ ys) = states_of xs \<union> states_of ys"
  by (auto simp: states_of_def)

lemma disjoint_blocks_append:
  "disjoint_blocks (xs @ ys) \<longleftrightarrow>
     disjoint_blocks xs \<and> disjoint_blocks ys \<and> states_of xs \<inter> states_of ys = {}"
  by (induction xs) auto

lemma states_of_map_snd: "states_of (map snd groups) = members_of groups"
  by (auto simp: states_of_def members_of_def)

lemma disjoint_groups:
  assumes "groups_ok f groups"
  shows "disjoint_blocks (map snd groups)"
  using assms
proof (induction groups)
  case Nil
  show ?case by simp
next
  case (Cons g groups)
  from Cons.prems have ok: "groups_ok f groups" and k: "fst g \<notin> fst ` set groups"
    and gk: "\<forall>q \<in> set (snd g). f q = fst g"
    and rk: "\<forall>h \<in> set groups. \<forall>q \<in> set (snd h). f q = fst h"
    by (auto simp: groups_ok_def)
  have "set (snd g) \<inter> members_of groups = {}"
  proof (rule ccontr)
    assume "set (snd g) \<inter> members_of groups \<noteq> {}"
    then obtain q h where "q \<in> set (snd g)" "h \<in> set groups" "q \<in> set (snd h)"
      by (auto simp: members_of_def)
    with gk rk have "fst h = fst g" by auto
    with \<open>h \<in> set groups\<close> k show False by (metis image_eqI)
  qed
  with Cons.IH [OF ok] show ?case by (simp add: states_of_map_snd)
qed

lemma pieces_props:
  shows "states_of (pieces A partitions block) = set block"
    and "disjoint_blocks (pieces A partitions block)"
    and "block \<noteq> [] \<Longrightarrow> \<forall>b \<in> set (pieces A partitions block). b \<noteq> []"
proof -
  have "states_of (pieces A partitions block) = set block \<and>
        disjoint_blocks (pieces A partitions block) \<and>
        (block \<noteq> [] \<longrightarrow> (\<forall>b \<in> set (pieces A partitions block). b \<noteq> []))"
  proof (cases "is_split A partitions block")
    case False
    then show ?thesis by (simp add: pieces_def)
  next
    case True
    then have "splitPartition A block partitions \<noteq> [block]"
      by (auto simp: is_split_def)
    with splitPartition_cases [of A block partitions] obtain symbol where
      e: "splitPartition A block partitions = map snd (group_states A partitions symbol block)"
      by auto
    note g = group_states_props [of A partitions symbol block]
    from g(1) have "\<forall>b \<in> set (map snd (group_states A partitions symbol block)). b \<noteq> []"
      by (auto simp: groups_ok_def)
    with True e g(2) disjoint_groups [OF g(1)] show ?thesis
      by (simp add: pieces_def states_of_map_snd)
  qed
  then show "states_of (pieces A partitions block) = set block"
    and "disjoint_blocks (pieces A partitions block)"
    and "block \<noteq> [] \<Longrightarrow> \<forall>b \<in> set (pieces A partitions block). b \<noteq> []"
    by simp_all
qed

lemma pieces_subset: "b \<in> set (pieces A partitions block) \<Longrightarrow> set b \<subseteq> set block"
  using pieces_props(1) [of A partitions block] by (auto simp: states_of_def)

lemma round_states_of:
  "states_of (concat (map (pieces A partitions) xs)) = states_of xs"
  by (induction xs) (simp_all add: pieces_props(1))

lemma round_disjoint:
  "disjoint_blocks xs \<Longrightarrow> disjoint_blocks (concat (map (pieces A partitions) xs))"
  by (induction xs)
     (simp_all add: disjoint_blocks_append pieces_props(1,2) round_states_of)

text \<open>
  The invariant of step 3: the blocks share no state, none is empty, every reachable
  state is in a block, and a block holds final states only or none.
\<close>

definition partition_inv :: "automaton \<Rightarrow> string list list \<Rightarrow> bool" where
  "partition_inv A partitions \<longleftrightarrow>
     disjoint_blocks partitions \<and>
     (\<forall>b \<in> set partitions. b \<noteq> []) \<and>
     set (getReachableStates A) \<subseteq> states_of partitions \<and>
     (\<forall>b \<in> set partitions. \<forall>p \<in> set b. \<forall>q \<in> set b.
        p \<in> set (finalStates A) \<longleftrightarrow> q \<in> set (finalStates A))"

lemma set_new_Set [simp]: "set (new_Set xs) = set xs"
proof -
  have "set (foldl (\<lambda>s x. set_add x s) acc xs) = set acc \<union> set xs" for acc
    by (induction xs arbitrary: acc) auto
  then show ?thesis by (simp add: new_Set_def)
qed

lemma partition_inv_initial: "partition_inv A (initial_partitions A)"
  unfolding partition_inv_def initial_partitions_def Let_def
  by (auto simp: set_empty [symmetric] simp del: set_empty)

lemma partition_inv_round:
  assumes "partition_inv A partitions"
  shows "partition_inv A (concat (map (pieces A partitions) partitions))"
proof -
  let ?N = "concat (map (pieces A partitions) partitions)"
  have sub: "\<exists>b \<in> set partitions. b' \<in> set (pieces A partitions b)" if "b' \<in> set ?N" for b'
    using that by auto
  have 1: "disjoint_blocks ?N" using assms by (simp add: partition_inv_def round_disjoint)
  have 2: "\<forall>b \<in> set ?N. b \<noteq> []"
  proof
    fix b' assume "b' \<in> set ?N"
    from sub [OF this] obtain b where b: "b \<in> set partitions" "b' \<in> set (pieces A partitions b)"
      by auto
    with assms have "b \<noteq> []" by (auto simp: partition_inv_def)
    from pieces_props(3) [OF this] b show "b' \<noteq> []" by auto
  qed
  have 3: "set (getReachableStates A) \<subseteq> states_of ?N"
    using assms by (simp add: partition_inv_def round_states_of)
  have 4: "\<forall>b \<in> set ?N. \<forall>p \<in> set b. \<forall>q \<in> set b.
        p \<in> set (finalStates A) \<longleftrightarrow> q \<in> set (finalStates A)"
  proof (intro ballI)
    fix b' p q assume "b' \<in> set ?N" and pq: "p \<in> set b'" "q \<in> set b'"
    from sub [OF this(1)] obtain b where b: "b \<in> set partitions" "b' \<in> set (pieces A partitions b)"
      by auto
    from pieces_subset [OF b(2)] pq have "p \<in> set b" "q \<in> set b" by auto
    with assms b(1) show "p \<in> set (finalStates A) \<longleftrightarrow> q \<in> set (finalStates A)"
      unfolding partition_inv_def by blast
  qed
  from 1 2 3 4 show ?thesis unfolding partition_inv_def by blast
qed

text \<open>Partitions that no round changes.\<close>

definition stable :: "automaton \<Rightarrow> string list list \<Rightarrow> bool" where
  "stable A partitions \<longleftrightarrow> (\<forall>b \<in> set partitions. \<not> is_split A partitions b)"

lemma pieces_unsplit:
  "\<forall>b \<in> set xs. \<not> is_split A partitions b \<Longrightarrow> concat (map (pieces A partitions) xs) = xs"
  by (induction xs) (simp_all add: pieces_def)

lemma refine_result:
  assumes "partition_inv A partitions"
  shows "partition_inv A (refine A partitions) \<and> stable A (refine A partitions)"
  using assms
proof (induction A partitions rule: refine.induct)
  case (1 A partitions)
  let ?N = "concat (map (pieces A partitions) partitions)"
  show ?case
  proof (cases "list_ex (is_split A partitions) partitions")
    case True
    then have e: "refine A partitions = refine A ?N"
      by (simp add: refine.simps [of A partitions] refine_round_eq)
    from "1.IH" [of ?N True] True partition_inv_round [OF "1.prems"] show ?thesis
      unfolding e by (simp add: refine_round_eq)
  next
    case False
    then have u: "\<forall>b \<in> set partitions. \<not> is_split A partitions b"
      by (simp add: list_ex_iff)
    then have "?N = partitions" by (rule pieces_unsplit)
    with False have e: "refine A partitions = partitions"
      by (simp add: refine.simps [of A partitions] refine_round_eq)
    from u "1.prems" show ?thesis unfolding e stable_def by simp
  qed
qed

section \<open>Stable partitions\<close>

lemma split_symbols_unsplit:
  "length (split_symbols A block partitions symbols) \<le> 1 \<Longrightarrow>
   \<forall>symbol \<in> set symbols. length (group_states A partitions symbol block) \<le> 1"
proof (induction symbols)
  case Nil
  show ?case by simp
next
  case (Cons symbol symbols)
  have l: "length (group_states A partitions symbol block) \<le> 1"
  proof (rule ccontr)
    assume "\<not> length (group_states A partitions symbol block) \<le> 1"
    then have g: "length (group_states A partitions symbol block) > 1" by simp
    then have "split_symbols A block partitions (symbol # symbols)
                = map snd (group_states A partitions symbol block)"
      by (simp add: Let_def)
    with Cons.prems g show False by simp
  qed
  then have "split_symbols A block partitions (symbol # symbols)
              = split_symbols A block partitions symbols"
    by (simp add: Let_def)
  with Cons l show ?case by simp
qed


lemma single_group_same_key:
  assumes "groups_ok f groups" "length groups \<le> 1" "p \<in> members_of groups" "q \<in> members_of groups"
  shows "f p = f q"
proof (cases groups)
  case Nil
  with assms(3) show ?thesis by (simp add: members_of_def)
next
  case (Cons g gs)
  with assms(2) have e: "groups = [g]" by simp
  from assms(3,4) have "p \<in> set (snd g)" "q \<in> set (snd g)"
    by (simp_all add: e members_of_def)
  moreover from assms(1) have "\<forall>x \<in> set (snd g). f x = fst g"
    by (simp add: e groups_ok_def)
  ultimately show ?thesis by simp
qed

lemma short_list_same: "length b \<le> 1 \<Longrightarrow> p \<in> set b \<Longrightarrow> q \<in> set b \<Longrightarrow> p = q"
  by (cases b) simp_all

lemma stable_same_index:
  assumes "stable A partitions" "b \<in> set partitions" "p \<in> set b" "q \<in> set b"
    and "a \<in> set (alphabet A)"
  shows "target_index A partitions p a = target_index A partitions q a"
proof (cases "length b \<le> 1")
  case True
  from short_list_same [OF True assms(3,4)] show ?thesis by simp
next
  case False
  from assms(1,2) have "\<not> is_split A partitions b"
    unfolding stable_def by blast
  then have "length (splitPartition A b partitions) \<le> 1"
    unfolding is_split_def by linarith
  with False have "length (split_symbols A b partitions (alphabet A)) \<le> 1"
    by (simp add: splitPartition_def)
  from split_symbols_unsplit [OF this] assms(5)
  have l: "length (group_states A partitions a b) \<le> 1" by blast
  note g = group_states_props [of A partitions a b]
  have "p \<in> members_of (group_states A partitions a b)"
    "q \<in> members_of (group_states A partitions a b)"
    using assms(3,4) by (simp_all add: g(2))
  with g(1) l show ?thesis by (rule single_group_same_key)
qed

section \<open>The block of a state\<close>

lemma disjoint_blocks_unique:
  "disjoint_blocks bs \<Longrightarrow> i < length bs \<Longrightarrow> j < length bs \<Longrightarrow>
   t \<in> set (bs ! i) \<Longrightarrow> t \<in> set (bs ! j) \<Longrightarrow> i = j"
proof (induction bs arbitrary: i j)
  case Nil
  then show ?case by simp
next
  case (Cons b bs)
  have in_rest: "t \<in> states_of bs" if "k < length bs" "t \<in> set (bs ! k)" for k
  proof -
    have "bs ! k \<in> set bs" using that(1) by (rule nth_mem)
    with that(2) show ?thesis unfolding states_of_def by (intro UN_I)
  qed
  show ?case
  proof (cases i)
    case 0
    show ?thesis
    proof (cases j)
      case (Suc j')
      with 0 Cons.prems in_rest [of j'] show ?thesis by auto
    qed (simp add: 0)
  next
    case (Suc i')
    show ?thesis
    proof (cases j)
      case 0
      with Suc Cons.prems in_rest [of i'] show ?thesis by auto
    next
      case j: (Suc j')
      with Suc Cons.prems Cons.IH [of i' j'] show ?thesis by auto
    qed
  qed
qed

lemma partition_index_none: "t \<notin> states_of bs \<Longrightarrow> partition_index bs t i = - 1"
  by (induction bs arbitrary: i) auto

lemma partition_index_cases:
  "partition_index bs t i = - 1 \<and> t \<notin> states_of bs \<or>
   (\<exists>j < length bs. t \<in> set (bs ! j) \<and> partition_index bs t i = int (i + j))"
proof (induction bs arbitrary: i)
  case Nil
  show ?case by simp
next
  case (Cons b bs)
  show ?case
  proof (cases "t \<in> set b")
    case True
    then show ?thesis by (intro disjI2 exI [of _ 0]) simp
  next
    case False
    from Cons [of "Suc i"] show ?thesis
    proof
      assume "partition_index bs t (Suc i) = - 1 \<and> t \<notin> states_of bs"
      with False show ?thesis by simp
    next
      assume "\<exists>j < length bs. t \<in> set (bs ! j) \<and> partition_index bs t (Suc i) = int (Suc i + j)"
      then obtain j where "j < length bs" "t \<in> set (bs ! j)"
        "partition_index bs t (Suc i) = int (Suc i + j)" by blast
      with False show ?thesis by (intro disjI2 exI [of _ "Suc j"]) simp
    qed
  qed
qed

lemma partition_index_eq:
  assumes "disjoint_blocks bs" "j < length bs" "t \<in> set (bs ! j)"
  shows "partition_index bs t 0 = int j"
proof -
  have "bs ! j \<in> set bs" using assms(2) by (rule nth_mem)
  with assms(3) have "t \<in> states_of bs"
    unfolding states_of_def by (intro UN_I)
  with partition_index_cases [of bs t 0]
  have "\<exists>k < length bs. t \<in> set (bs ! k) \<and> partition_index bs t 0 = int (0 + k)"
    by blast
  then obtain k where k: "k < length bs" "t \<in> set (bs ! k)" "partition_index bs t 0 = int k"
    by auto
  have "k = j" using assms(1) k(1) assms(2) k(2) assms(3) by (rule disjoint_blocks_unique)
  with k(3) show ?thesis by simp
qed

lemma nth_states_of: "j < length bs \<Longrightarrow> t \<in> set (bs ! j) \<Longrightarrow> t \<in> states_of bs"
proof -
  assume "j < length bs" and t: "t \<in> set (bs ! j)"
  then have "bs ! j \<in> set bs" by simp
  with t show ?thesis unfolding states_of_def by (intro UN_I)
qed

lemma in_states_of_nth: "t \<in> states_of bs \<Longrightarrow> \<exists>j < length bs. t \<in> set (bs ! j)"
proof -
  assume "t \<in> states_of bs"
  then obtain b where "b \<in> set bs" "t \<in> set b" by (auto simp: states_of_def)
  then obtain j where "j < length bs" "bs ! j = b" by (auto simp: in_set_conv_nth)
  with \<open>t \<in> set b\<close> show ?thesis by blast
qed

section \<open>The names of the new states\<close>

lemma index_value_snoc:
  "index_value (xs @ [c]) = 10 * index_value xs + (of_char c - 48)"
  by (simp add: index_value_def)

lemma index_value_string_of_nat: "index_value (string_of_nat n) = n"
proof (induction n rule: string_of_nat.induct)
  case (1 n)
  show ?case
  proof (cases "n < 10")
    case True
    then show ?thesis
      by (simp add: string_of_nat.simps [of n] index_value_def)
  next
    case False
    have "n mod 10 < 10" by simp
    then have "of_char (char_of (48 + n mod 10)) = (48::nat) + n mod 10"
      by (simp add: mod_if)
    with False 1 show ?thesis
      by (simp add: string_of_nat.simps [of n] index_value_snoc)
  qed
qed

lemma partition_name_inject [simp]: "partition_name i = partition_name j \<longleftrightarrow> i = j"
proof
  assume "partition_name i = partition_name j"
  then have "index_value (string_of_nat i) = index_value (string_of_nat j)"
    by (simp add: partition_name_def)
  then show "i = j" by (simp add: index_value_string_of_nat)
qed simp

lemma partition_name_truthy [simp]: "partition_name i \<noteq> []"
  by (simp add: partition_name_def)

section \<open>The first loop of step 4\<close>

lemma foldl_stateMap:
  "obj_get (foldl (\<lambda>m q. obj_set q name m) stateMap block) t
     = (if t \<in> set block then Some name else obj_get stateMap t)"
  by (induction block arbitrary: stateMap) auto

lemma add_partition_states_props:
  assumes "add_partition_states A i bs (M, sm) = (M', sm')" and "disjoint_blocks bs"
  shows "type M' = type M \<and> alphabet M' = alphabet M \<and> transitions M' = transitions M \<and>
         set (states M') = set (states M) \<union> partition_name ` {i ..< i + length bs} \<and>
         set (finalStates M') = set (finalStates M) \<union>
            {partition_name (i + j) | j. j < length bs \<and> has_final A (bs ! j)} \<and>
         (\<forall>j < length bs. \<forall>t \<in> set (bs ! j). obj_get sm' t = Some (partition_name (i + j))) \<and>
         (\<forall>t. t \<notin> states_of bs \<longrightarrow> obj_get sm' t = obj_get sm t) \<and>
         (\<forall>j < length bs. \<forall>q. initialState A = Some q \<and> q \<in> set (bs ! j) \<longrightarrow>
             initialState M' = Some (partition_name (i + j))) \<and>
         ((\<forall>q. initialState A = Some q \<longrightarrow> q \<notin> states_of bs) \<longrightarrow>
             initialState M' = initialState M)"
  using assms
proof (induction bs arbitrary: i M sm)
  case Nil
  then show ?case by simp
next
  case (Cons b bs)
  let ?n = "partition_name i"
  define ini where "ini \<longleftrightarrow> (case initialState A of None \<Rightarrow> False | Some q \<Rightarrow> q \<in> set b)"
  define M1 where "M1 = addState ?n M"
  define M2 where "M2 = (if ini then setInitialState ?n M1 else M1)"
  define M3 where "M3 = (if has_final A b then toggleFinalState ?n True M2 else M2)"
  define sm1 where "sm1 = foldl (\<lambda>m q. obj_set q ?n m) sm b"
  have rec: "add_partition_states A (Suc i) bs (M3, sm1) = (M', sm')"
    using Cons.prems(1) unfolding M3_def M2_def M1_def sm1_def ini_def
    by (simp add: Let_def split del: if_split)
  from Cons.prems(2) have d: "disjoint_blocks bs" and db: "set b \<inter> states_of bs = {}"
    by simp_all
  note IH = Cons.IH [OF rec d]
  have m3: "type M3 = type M" "alphabet M3 = alphabet M" "transitions M3 = transitions M"
    "set (states M3) = insert ?n (set (states M))"
    "set (finalStates M3) = set (finalStates M) \<union> (if has_final A b then {?n} else {})"
    "initialState M3 = (if ini then Some ?n else initialState M)"
    by (auto simp: M3_def M2_def M1_def addState_def setInitialState_def toggleFinalState_def)
  have sm1: "obj_get sm1 t = (if t \<in> set b then Some ?n else obj_get sm t)" for t
    by (simp add: sm1_def foldl_stateMap)
  have in_rest: "t \<in> states_of bs" if "k < length bs" "t \<in> set (bs ! k)" for k t
  proof -
    have "bs ! k \<in> set bs" using that(1) by (rule nth_mem)
    with that(2) show ?thesis unfolding states_of_def by (intro UN_I)
  qed
  have 1: "set (states M') = set (states M) \<union> partition_name ` {i ..< i + length (b # bs)}"
  proof -
    have "{i ..< i + length (b # bs)} = insert i {Suc i ..< Suc i + length bs}" by auto
    with IH m3(4) show ?thesis by auto
  qed
  have 2: "set (finalStates M') = set (finalStates M) \<union>
            {partition_name (i + j) | j. j < length (b # bs) \<and> has_final A ((b # bs) ! j)}"
  proof -
    have "{partition_name (i + j) | j. j < length (b # bs) \<and> has_final A ((b # bs) ! j)}
          = (if has_final A b then {?n} else {}) \<union>
            {partition_name (Suc i + j) | j. j < length bs \<and> has_final A (bs ! j)}"
      (is "?L = ?R")
    proof (intro set_eqI iffI)
      fix x assume "x \<in> ?L"
      then obtain j where j: "x = partition_name (i + j)" "j < length (b # bs)"
        "has_final A ((b # bs) ! j)" by blast
      show "x \<in> ?R"
      proof (cases j)
        case 0
        with j show ?thesis by simp
      next
        case (Suc j')
        with j have "x = partition_name (Suc i + j')" "j' < length bs" "has_final A (bs ! j')"
          by simp_all
        then show ?thesis by blast
      qed
    next
      fix x assume "x \<in> ?R"
      then consider "has_final A b" "x = ?n"
        | j where "x = partition_name (Suc i + j)" "j < length bs" "has_final A (bs ! j)"
        by (auto split: if_splits)
      then show "x \<in> ?L"
      proof cases
        case 1
        then have "x = partition_name (i + 0) \<and> 0 < length (b # bs) \<and> has_final A ((b # bs) ! 0)"
          by simp
        then show ?thesis by blast
      next
        case 2
        then have "x = partition_name (i + Suc j) \<and> Suc j < length (b # bs) \<and>
                   has_final A ((b # bs) ! Suc j)"
          by simp
        then show ?thesis by blast
      qed
    qed
    with IH m3(5) show ?thesis by auto
  qed
  have 3: "\<forall>j < length (b # bs). \<forall>t \<in> set ((b # bs) ! j).
             obj_get sm' t = Some (partition_name (i + j))"
  proof (intro allI impI ballI)
    fix j t assume j: "j < length (b # bs)" and t: "t \<in> set ((b # bs) ! j)"
    show "obj_get sm' t = Some (partition_name (i + j))"
    proof (cases j)
      case 0
      with t have tb: "t \<in> set b" by simp
      with db have "t \<notin> states_of bs" by auto
      with IH have "obj_get sm' t = obj_get sm1 t" by blast
      with tb 0 show ?thesis by (simp add: sm1)
    next
      case (Suc j')
      with j t IH show ?thesis by simp
    qed
  qed
  have 4: "\<forall>t. t \<notin> states_of (b # bs) \<longrightarrow> obj_get sm' t = obj_get sm t"
    using IH by (simp add: sm1)
  have 5: "\<forall>j < length (b # bs). \<forall>q. initialState A = Some q \<and> q \<in> set ((b # bs) ! j) \<longrightarrow>
             initialState M' = Some (partition_name (i + j))"
  proof (intro allI impI)
    fix j q assume j: "j < length (b # bs)"
      and q: "initialState A = Some q \<and> q \<in> set ((b # bs) ! j)"
    show "initialState M' = Some (partition_name (i + j))"
    proof (cases j)
      case 0
      with q have qb: "q \<in> set b" by simp
      with db have "q \<notin> states_of bs" by auto
      with q IH have "initialState M' = initialState M3" by auto
      moreover from q qb have ini by (simp add: ini_def)
      ultimately show ?thesis using 0 by (simp add: m3)
    next
      case (Suc j')
      with j q IH show ?thesis by simp
    qed
  qed
  have 6: "(\<forall>q. initialState A = Some q \<longrightarrow> q \<notin> states_of (b # bs)) \<longrightarrow>
             initialState M' = initialState M"
  proof
    assume a: "\<forall>q. initialState A = Some q \<longrightarrow> q \<notin> states_of (b # bs)"
    then have "\<not> ini" by (auto simp: ini_def split: option.splits)
    moreover from a IH have "initialState M' = initialState M3" by simp
    ultimately show "initialState M' = initialState M" by (simp add: m3)
  qed
  from IH m3(1-3) 1 2 3 4 5 6 show ?case by simp
qed

section \<open>The second loop of step 4\<close>

lemma addTransition_table:
  assumes "p \<in> set (states M)" "q \<in> set (states M)"
  shows "states (snd (addTransition p a q M)) = states M"
    and "type (snd (addTransition p a q M)) = type M"
    and "initialState (snd (addTransition p a q M)) = initialState M"
    and "finalStates (snd (addTransition p a q M)) = finalStates M"
    and "get2 (transitions (snd (addTransition p a q M))) p' a' =
           (if p' = p \<and> a' = a
            then Some (if type M = DFA then One q
                       else Many (set_add q (members (get2 (transitions M) p a))))
            else get2 (transitions M) p' a')"
  using assms
  by (auto simp: addTransition_def Let_def get2_obj_set obj_get_row_of)

text \<open>
  \<open>stateMap\<close> after the first loop: a state of block \<open>j\<close> is mapped to the name of
  block \<open>j\<close>, and no other state is mapped.
\<close>

definition maps_blocks :: "string list list \<Rightarrow> string obj \<Rightarrow> bool" where
  "maps_blocks partitions stateMap \<longleftrightarrow>
     (\<forall>j < length partitions. \<forall>t \<in> set (partitions ! j).
        obj_get stateMap t = Some (partition_name j)) \<and>
     (\<forall>t. t \<notin> states_of partitions \<longrightarrow> obj_get stateMap t = None)"

text \<open>
  The entry the second loop writes for block \<open>i\<close> and a symbol: the block of the target
  of the representative.
\<close>

definition expected_entry ::
  "automaton \<Rightarrow> string list list \<Rightarrow> string obj \<Rightarrow> nat \<Rightarrow> string \<Rightarrow> target option" where
  "expected_entry A partitions stateMap i a =
     (if a \<in> set (alphabet A)
      then (case dfa_next A (hd (partitions ! i)) a of
              None \<Rightarrow> None
            | Some t \<Rightarrow> map_option One (obj_get stateMap t))
      else None)"

definition table_sound ::
  "automaton \<Rightarrow> string list list \<Rightarrow> string obj \<Rightarrow> automaton \<Rightarrow> bool" where
  "table_sound A partitions stateMap M \<longleftrightarrow>
     type M = DFA \<and> partition_name ` {..< length partitions} \<subseteq> set (states M) \<and>
     (\<forall>p a v. get2 (transitions M) p a = Some v \<longrightarrow>
        (\<exists>i < length partitions. p = partition_name i \<and>
           expected_entry A partitions stateMap i a = Some v))"

definition same_but_table :: "automaton \<Rightarrow> automaton \<Rightarrow> bool" where
  "same_but_table M' M \<longleftrightarrow>
     type M' = type M \<and> states M' = states M \<and> initialState M' = initialState M \<and>
     finalStates M' = finalStates M \<and>
     (\<forall>p a. get2 (transitions M) p a \<noteq> None \<longrightarrow> get2 (transitions M') p a \<noteq> None)"

lemma same_but_table_refl: "same_but_table M M"
  by (simp add: same_but_table_def)

lemma same_but_table_trans:
  "same_but_table M'' M' \<Longrightarrow> same_but_table M' M \<Longrightarrow> same_but_table M'' M"
  by (simp add: same_but_table_def)

lemma maps_blocks_range:
  assumes "maps_blocks partitions stateMap" "obj_get stateMap t = Some tp"
  shows "\<exists>j < length partitions. t \<in> set (partitions ! j) \<and> tp = partition_name j"
proof -
  from assms have "t \<in> states_of partitions"
    by (auto simp: maps_blocks_def)
  then obtain j where j: "j < length partitions" "t \<in> set (partitions ! j)"
    using in_states_of_nth by blast
  with assms have "tp = partition_name j" by (auto simp: maps_blocks_def)
  with j show ?thesis by blast
qed

text \<open>The body of the loop over the alphabet, for the representative \<open>r\<close>.\<close>

definition transition_step ::
  "automaton \<Rightarrow> string obj \<Rightarrow> string \<Rightarrow> automaton \<Rightarrow> string \<Rightarrow> automaton" where
  "transition_step A stateMap r M symbol =
     (case dfa_next A r symbol of
        None \<Rightarrow> M
      | Some targetState \<Rightarrow>
          (case (obj_get stateMap r, obj_get stateMap targetState) of
             (Some partitionState, Some targetPartitionState) \<Rightarrow>
               snd (addTransition partitionState symbol targetPartitionState M)
           | _ \<Rightarrow> M))"

lemma transition_step_props:
  assumes ms: "maps_blocks partitions stateMap"
    and i: "i < length partitions" "partitions ! i \<noteq> []"
    and s: "table_sound A partitions stateMap M"
    and a: "a \<in> set (alphabet A)"
  defines "M' \<equiv> transition_step A stateMap (hd (partitions ! i)) M a"
  shows "table_sound A partitions stateMap M'"
    and "same_but_table M' M"
    and "expected_entry A partitions stateMap i a \<noteq> None \<longrightarrow>
         get2 (transitions M') (partition_name i) a \<noteq> None"
proof -
  let ?r = "hd (partitions ! i)"
  from i have "?r \<in> set (partitions ! i)" by simp
  with ms i have r: "obj_get stateMap ?r = Some (partition_name i)"
    by (simp add: maps_blocks_def)
  have "table_sound A partitions stateMap M' \<and> same_but_table M' M \<and>
        (expected_entry A partitions stateMap i a \<noteq> None \<longrightarrow>
         get2 (transitions M') (partition_name i) a \<noteq> None)"
  proof (cases "dfa_next A ?r a")
    case None
    then have "M' = M" "expected_entry A partitions stateMap i a = None"
      by (simp_all add: M'_def transition_step_def expected_entry_def)
    with s show ?thesis by (simp add: same_but_table_refl)
  next
    case (Some t)
    show ?thesis
    proof (cases "obj_get stateMap t")
      case None
      with Some r have "M' = M" "expected_entry A partitions stateMap i a = None"
        by (simp_all add: M'_def transition_step_def expected_entry_def)
      with s show ?thesis by (simp add: same_but_table_refl)
    next
      case tp: (Some tp)
      from maps_blocks_range [OF ms tp] obtain j where j: "j < length partitions" "tp = partition_name j"
        by blast
      from s i j have mem: "partition_name i \<in> set (states M)" "tp \<in> set (states M)"
        and d: "type M = DFA"
        by (auto simp: table_sound_def)
      have M': "M' = snd (addTransition (partition_name i) a tp M)"
        using Some tp r by (simp add: M'_def transition_step_def)
      note e = addTransition_table [OF mem, of a]
      have ex: "expected_entry A partitions stateMap i a = Some (One tp)"
        using Some tp a by (simp add: expected_entry_def)
      have 1: "table_sound A partitions stateMap M'"
        unfolding table_sound_def
      proof (intro conjI allI impI)
        show "type M' = DFA" using d by (simp add: M' e)
        show "partition_name ` {..< length partitions} \<subseteq> set (states M')"
          using s by (simp add: M' e table_sound_def)
        fix p b v assume g: "get2 (transitions M') p b = Some v"
        show "\<exists>i < length partitions. p = partition_name i \<and>
                expected_entry A partitions stateMap i b = Some v"
        proof (cases "p = partition_name i \<and> b = a")
          case True
          with g d have "v = One tp" by (simp add: M' e)
          with True ex i(1) show ?thesis by blast
        next
          case False
          with g have "get2 (transitions M) p b = Some v" by (auto simp: M' e)
          with s show ?thesis unfolding table_sound_def by blast
        qed
      qed
      have 2: "same_but_table M' M"
        unfolding same_but_table_def by (simp add: M' e)
      have 3: "get2 (transitions M') (partition_name i) a \<noteq> None"
        by (simp add: M' e)
      from 1 2 3 show ?thesis by simp
    qed
  qed
  then show "table_sound A partitions stateMap M'"
    and "same_but_table M' M"
    and "expected_entry A partitions stateMap i a \<noteq> None \<longrightarrow>
         get2 (transitions M') (partition_name i) a \<noteq> None"
    by simp_all
qed

lemma transition_fold_props:
  assumes ms: "maps_blocks partitions stateMap"
    and i: "i < length partitions" "partitions ! i \<noteq> []"
    and s: "table_sound A partitions stateMap M"
    and sub: "set symbols \<subseteq> set (alphabet A)"
  defines "M' \<equiv> foldl (transition_step A stateMap (hd (partitions ! i))) M symbols"
  shows "table_sound A partitions stateMap M' \<and> same_but_table M' M \<and>
         (\<forall>a \<in> set symbols. expected_entry A partitions stateMap i a \<noteq> None \<longrightarrow>
            get2 (transitions M') (partition_name i) a \<noteq> None)"
  unfolding M'_def using s sub
proof (induction symbols arbitrary: M)
  case Nil
  then show ?case by (simp add: same_but_table_refl)
next
  case (Cons a symbols)
  let ?M = "transition_step A stateMap (hd (partitions ! i)) M a"
  from Cons.prems have a: "a \<in> set (alphabet A)" and sub: "set symbols \<subseteq> set (alphabet A)"
    by simp_all
  note st = transition_step_props [OF ms i Cons.prems(1) a]
  note IH = Cons.IH [OF st(1) sub]
  let ?M' = "foldl (transition_step A stateMap (hd (partitions ! i))) ?M symbols"
  have 2: "same_but_table ?M' M"
    using IH st(2) by (blast intro: same_but_table_trans)
  have 3: "expected_entry A partitions stateMap i a \<noteq> None \<longrightarrow>
             get2 (transitions ?M') (partition_name i) a \<noteq> None"
    using st(3) IH by (simp add: same_but_table_def)
  from IH 2 3 show ?case by simp
qed

lemma dfa_next_no_row: "obj_get (transitions A) r = None \<Longrightarrow> dfa_next A r a = None"
  by (simp add: dfa_next_def get2_def)

lemma add_partition_transitions_fold:
  "block \<noteq> [] \<Longrightarrow>
   add_partition_transitions A stateMap M block
     = foldl (transition_step A stateMap (hd block)) M (alphabet A)"
proof -
  assume "block \<noteq> []"
  then obtain r rest where b: "block = r # rest" by (cases block) auto
  have n: "foldl (transition_step A stateMap r) M symbols = M"
    if "obj_get (transitions A) r = None" for symbols
    using dfa_next_no_row [OF that]
    by (induction symbols) (simp_all add: transition_step_def)
  have s: "(\<lambda>M symbol.
                  case dfa_next A r symbol of
                    None \<Rightarrow> M
                  | Some targetState \<Rightarrow>
                      (case (obj_get stateMap r, obj_get stateMap targetState) of
                         (Some partitionState, Some targetPartitionState) \<Rightarrow>
                           snd (addTransition partitionState symbol targetPartitionState M)
                       | _ \<Rightarrow> M)) = transition_step A stateMap r"
    by (intro ext) (simp add: transition_step_def)
  show ?thesis
    unfolding b add_partition_transitions_def list.case s list.sel
    using n by simp
qed

lemma blocks_fold_props:
  assumes ms: "maps_blocks partitions stateMap"
    and ne: "\<forall>b \<in> set partitions. b \<noteq> []"
    and s: "table_sound A partitions stateMap M"
    and sub: "\<forall>b \<in> set bs. \<exists>i < length partitions. partitions ! i = b"
  shows "table_sound A partitions stateMap (foldl (add_partition_transitions A stateMap) M bs) \<and>
         same_but_table (foldl (add_partition_transitions A stateMap) M bs) M \<and>
         (\<forall>i < length partitions. partitions ! i \<in> set bs \<longrightarrow>
            (\<forall>a. expected_entry A partitions stateMap i a \<noteq> None \<longrightarrow>
               get2 (transitions (foldl (add_partition_transitions A stateMap) M bs))
                 (partition_name i) a \<noteq> None))"
  using s sub
proof (induction bs arbitrary: M)
  case Nil
  then show ?case by (simp add: same_but_table_refl)
next
  case (Cons b bs)
  from Cons.prems(2) obtain k where k: "k < length partitions" "partitions ! k = b"
    by auto
  with ne have bne: "partitions ! k \<noteq> []" by (metis nth_mem)
  let ?M = "add_partition_transitions A stateMap M b"
  have e: "?M = foldl (transition_step A stateMap (hd (partitions ! k))) M (alphabet A)"
    using bne k by (simp add: add_partition_transitions_fold)
  note f = transition_fold_props [OF ms k(1) bne Cons.prems(1) subset_refl, folded e]
  from Cons.prems(2) have sub: "\<forall>b \<in> set bs. \<exists>i < length partitions. partitions ! i = b"
    by simp
  from f have fs: "table_sound A partitions stateMap ?M" by simp
  note IH = Cons.IH [OF fs sub]
  let ?M' = "foldl (add_partition_transitions A stateMap) ?M bs"
  have 2: "same_but_table ?M' M"
    using IH f by (blast intro: same_but_table_trans)
  have 3: "\<forall>i < length partitions. partitions ! i \<in> set (b # bs) \<longrightarrow>
            (\<forall>a. expected_entry A partitions stateMap i a \<noteq> None \<longrightarrow>
               get2 (transitions ?M') (partition_name i) a \<noteq> None)"
  proof (intro allI impI)
    fix i a assume i: "i < length partitions" "partitions ! i \<in> set (b # bs)"
      and x: "expected_entry A partitions stateMap i a \<noteq> None"
    show "get2 (transitions ?M') (partition_name i) a \<noteq> None"
    proof (cases "partitions ! i \<in> set bs")
      case True
      with IH i(1) x show ?thesis by blast
    next
      case False
      with i(2) k have pb: "partitions ! i = partitions ! k" by simp
      from x have aa: "a \<in> set (alphabet A)"
        by (auto simp: expected_entry_def split: if_splits)
      have "expected_entry A partitions stateMap k a
              = expected_entry A partitions stateMap i a"
        by (simp add: expected_entry_def pb)
      with x have xk: "expected_entry A partitions stateMap k a \<noteq> None" by simp
      have g: "get2 (transitions ?M) (partition_name k) a \<noteq> None"
        using f aa xk by blast
      have "get2 (transitions ?M') (partition_name k) a \<noteq> None"
        using IH g by (simp add: same_but_table_def)
      moreover have "partition_name i = partition_name k"
      proof -
        from bne obtain t where t: "t \<in> set (partitions ! k)" by (cases "partitions ! k") auto
        with ms k(1) have "obj_get stateMap t = Some (partition_name k)"
          by (simp add: maps_blocks_def)
        moreover from t pb ms i(1) have "obj_get stateMap t = Some (partition_name i)"
          by (simp add: maps_blocks_def)
        ultimately show ?thesis by simp
      qed
      ultimately show ?thesis by simp
    qed
  qed
  from IH 2 3 show ?case by simp
qed

text \<open>The table of the minimized automaton holds the expected entries and no other.\<close>

lemma built_table:
  assumes ms: "maps_blocks partitions stateMap"
    and ne: "\<forall>b \<in> set partitions. b \<noteq> []"
    and s: "table_sound A partitions stateMap M"
    and i: "i < length partitions"
  defines "M' \<equiv> foldl (add_partition_transitions A stateMap) M partitions"
  shows "get2 (transitions M') (partition_name i) a = expected_entry A partitions stateMap i a"
    and "same_but_table M' M"
proof -
  have sub: "\<forall>b \<in> set partitions. \<exists>i < length partitions. partitions ! i = b"
    by (simp add: in_set_conv_nth)
  note f = blocks_fold_props [OF ms ne s sub, folded M'_def]
  from f show "same_but_table M' M" by simp
  from f have sound: "table_sound A partitions stateMap M'" by simp
  have mem: "partitions ! i \<in> set partitions" using i by simp
  show "get2 (transitions M') (partition_name i) a = expected_entry A partitions stateMap i a"
  proof (cases "get2 (transitions M') (partition_name i) a")
    case None
    have "expected_entry A partitions stateMap i a = None"
    proof (rule ccontr)
      assume "expected_entry A partitions stateMap i a \<noteq> None"
      with f i mem have "get2 (transitions M') (partition_name i) a \<noteq> None" by blast
      with None show False by simp
    qed
    with None show ?thesis by simp
  next
    case (Some v)
    with sound obtain k where "partition_name i = partition_name k"
      "expected_entry A partitions stateMap k a = Some v"
      unfolding table_sound_def by blast
    with Some show ?thesis by simp
  qed
qed

section \<open>The minimized automaton accepts the same strings\<close>

text \<open>
  What the proof needs of \<open>minimizeDFA A\<close>: its states are named after the blocks of the
  refined partitions, and it steps from the block of a reachable state to the block of
  the target of that state.
\<close>

lemma minimizeDFA_props:
  assumes ini: "initialState A = Some q0"
  defines "P \<equiv> refine A (initial_partitions A)"
  defines "M \<equiv> minimizeDFA A"
  shows "set (alphabet M) = set (alphabet A)"
    and "type M = DFA"
    and "\<exists>j < length P. q0 \<in> set (P ! j) \<and> initialState M = Some (partition_name j)"
    and "\<And>i. i < length P \<Longrightarrow>
           partition_name i \<in> set (finalStates M) \<longleftrightarrow> has_final A (P ! i)"
    and "\<And>i a. i < length P \<Longrightarrow>
           get2 (transitions M) (partition_name i) a
             = (if a \<in> set (alphabet A)
                then (case dfa_next A (hd (P ! i)) a of
                        None \<Rightarrow> None
                      | Some t \<Rightarrow> (if t \<in> states_of P
                                   then Some (One (partition_name (nat (partition_index P t 0))))
                                   else None))
                else None)"
proof -
  have inv: "partition_inv A P" and st: "stable A P"
    using refine_result [OF partition_inv_initial [of A]] by (simp_all add: P_def)
  from inv have dj: "disjoint_blocks P" and ne: "\<forall>b \<in> set P. b \<noteq> []"
    and cov: "set (getReachableStates A) \<subseteq> states_of P"
    by (simp_all add: partition_inv_def)
  obtain M0 sm where ms: "add_partition_states A 0 P (new_Automaton DFA, []) = (M0, sm)"
    by (cases "add_partition_states A 0 P (new_Automaton DFA, [])")
  note p = add_partition_states_props [OF ms dj]
  have m0: "type M0 = DFA" "transitions M0 = []"
    "set (states M0) = partition_name ` {..< length P}"
    using p by (simp_all add: new_Automaton_def lessThan_atLeast0)
  have fin0: "set (finalStates M0) = {partition_name j | j. j < length P \<and> has_final A (P ! j)}"
    using p by (simp add: new_Automaton_def)
  have mb: "maps_blocks P sm"
    using p by (simp add: maps_blocks_def obj_get_def)
  have q0: "q0 \<in> states_of P"
    using cov getReachableStates_closed(1) [of A] ini by (auto simp: js_str_def)
  then obtain j0 where j0: "j0 < length P" "q0 \<in> set (P ! j0)"
    using in_states_of_nth by blast
  with p ini have ini0: "initialState M0 = Some (partition_name j0)" by simp
  have ts: "table_sound A P sm M0"
    by (simp add: table_sound_def m0 get2_def obj_get_def)
  define M1 where "M1 = foldl (add_partition_transitions A sm) M0 P"
  note bt = built_table [OF mb ne ts, folded M1_def]
  have M: "M = setAlphabet (alphabet A) M1"
    using ms by (simp add: M_def minimizeDFA_def Let_def P_def M1_def)
  show "set (alphabet M) = set (alphabet A)"
    by (simp add: M setAlphabet_def)
  show "type M = DFA"
    using bt(2) [OF j0(1)] m0(1) by (simp add: M setAlphabet_def same_but_table_def)
  have "initialState M = Some (partition_name j0)"
    using bt(2) [OF j0(1)] ini0 by (simp add: M setAlphabet_def same_but_table_def)
  with j0 show "\<exists>j < length P. q0 \<in> set (P ! j) \<and> initialState M = Some (partition_name j)"
    by blast
  show "partition_name i \<in> set (finalStates M) \<longleftrightarrow> has_final A (P ! i)" if "i < length P" for i
  proof -
    have "finalStates M = finalStates M0"
      using bt(2) [OF that] by (simp add: M setAlphabet_def same_but_table_def)
    with fin0 that show ?thesis by auto
  qed
  show "get2 (transitions M) (partition_name i) a
             = (if a \<in> set (alphabet A)
                then (case dfa_next A (hd (P ! i)) a of
                        None \<Rightarrow> None
                      | Some t \<Rightarrow> (if t \<in> states_of P
                                   then Some (One (partition_name (nat (partition_index P t 0))))
                                   else None))
                else None)" if "i < length P" for i a
  proof -
    have sm: "map_option One (obj_get sm t)
              = (if t \<in> states_of P
                 then Some (One (partition_name (nat (partition_index P t 0)))) else None)" for t
    proof (cases "t \<in> states_of P")
      case False
      with mb show ?thesis by (simp add: maps_blocks_def)
    next
      case True
      then obtain j where j: "j < length P" "t \<in> set (P ! j)"
        using in_states_of_nth by blast
      with mb have "obj_get sm t = Some (partition_name j)" by (simp add: maps_blocks_def)
      moreover have "partition_index P t 0 = int j" using dj j by (rule partition_index_eq)
      ultimately show ?thesis using True by simp
    qed
    have "get2 (transitions M) (partition_name i) a = expected_entry A P sm i a"
      using bt(1) [OF that] by (simp add: M setAlphabet_def)
    then show ?thesis
      by (simp add: expected_entry_def sm split: option.splits)
  qed
qed

lemma minimized_step:
  assumes ini: "initialState A = Some q0"
  defines "P \<equiv> refine A (initial_partitions A)"
  defines "M \<equiv> minimizeDFA A"
  assumes p: "p \<in> set (getReachableStates A)" and i: "i < length P" "p \<in> set (P ! i)"
    and a: "a \<in> set (alphabet A)"
  shows "dfa_next A p a = None \<Longrightarrow> dfa_next M (partition_name i) a = None"
    and "dfa_next A p a = Some t \<Longrightarrow>
           t \<in> set (getReachableStates A) \<and>
           (\<exists>j < length P. t \<in> set (P ! j) \<and>
              dfa_next M (partition_name i) a = Some (partition_name j))"
proof -
  have inv: "partition_inv A P" and st: "stable A P"
    using refine_result [OF partition_inv_initial [of A]] by (simp_all add: P_def)
  from inv have dj: "disjoint_blocks P" and ne: "\<forall>b \<in> set P. b \<noteq> []"
    and cov: "set (getReachableStates A) \<subseteq> states_of P"
    by (simp_all add: partition_inv_def)
  let ?r = "hd (P ! i)"
  have bi: "P ! i \<in> set P" using i(1) by simp
  with ne have "P ! i \<noteq> []" by blast
  then have r: "?r \<in> set (P ! i)" by simp
  have ti: "target_index A P p a = target_index A P ?r a"
    using st bi i(2) r a by (rule stable_same_index)
  have g: "get2 (transitions M) (partition_name i) a
             = (case dfa_next A ?r a of
                  None \<Rightarrow> None
                | Some t \<Rightarrow> (if t \<in> states_of P
                             then Some (One (partition_name (nat (partition_index P t 0))))
                             else None))"
    using minimizeDFA_props(5) [OF ini, folded P_def M_def, OF i(1), of a] a by simp
  have neg: "partition_index P x 0 = - 1 \<Longrightarrow> x \<notin> states_of P" for x
    using partition_index_cases [of P x 0] by auto
  have pos: "partition_index P x 0 = int j \<Longrightarrow> x \<in> states_of P" for x j
    using partition_index_cases [of P x 0] by (auto intro: nth_states_of)
  show "dfa_next M (partition_name i) a = None" if "dfa_next A p a = None"
  proof -
    from that ti have t: "target_index A P ?r a = - 1" by (simp add: target_index_def)
    have "get2 (transitions M) (partition_name i) a = None"
    proof (cases "dfa_next A ?r a")
      case None
      then show ?thesis by (simp add: g)
    next
      case (Some x)
      with t have "partition_index P x 0 = - 1" by (simp add: target_index_def)
      from neg [OF this] Some show ?thesis by (simp add: g)
    qed
    then show ?thesis by (simp add: dfa_next_def)
  qed
  show "t \<in> set (getReachableStates A) \<and>
           (\<exists>j < length P. t \<in> set (P ! j) \<and>
              dfa_next M (partition_name i) a = Some (partition_name j))"
    if "dfa_next A p a = Some t"
  proof -
    have tr: "t \<in> set (getReachableStates A)"
      using getReachableStates_closed(2) p that by (rule closed_under_step)
    with cov have "t \<in> states_of P" by blast
    then obtain j where j: "j < length P" "t \<in> set (P ! j)"
      using in_states_of_nth by blast
    have pj: "partition_index P t 0 = int j" using dj j by (rule partition_index_eq)
    with that ti have t: "target_index A P ?r a = int j" by (simp add: target_index_def)
    then obtain x where x: "dfa_next A ?r a = Some x" "partition_index P x 0 = int j"
      by (cases "dfa_next A ?r a") (simp_all add: target_index_def)
    from pos [OF x(2)] x
    have "get2 (transitions M) (partition_name i) a = Some (One (partition_name j))"
      by (simp add: g)
    then have "dfa_next M (partition_name i) a = Some (partition_name j)"
      by (simp add: dfa_next_def truthy_def)
    with tr j show ?thesis by blast
  qed
qed

lemma minimized_loop:
  assumes ini: "initialState A = Some q0"
  defines "P \<equiv> refine A (initial_partitions A)"
  defines "M \<equiv> minimizeDFA A"
  assumes p: "p \<in> set (getReachableStates A)" and i: "i < length P" "p \<in> set (P ! i)"
  shows "accepted (dfa_loop M (partition_name i) w pth) = accepted (dfa_loop A p w pth')"
  using p i
proof (induction w arbitrary: p i pth pth')
  case Nil
  have inv: "partition_inv A P"
    using refine_result [OF partition_inv_initial [of A]] by (simp add: P_def)
  have bi: "P ! i \<in> set P" using Nil(2) by simp
  have "has_final A (P ! i) \<longleftrightarrow> p \<in> set (finalStates A)"
  proof
    assume "has_final A (P ! i)"
    then obtain q where "q \<in> set (P ! i)" "q \<in> set (finalStates A)"
      by (auto simp: has_final_def list_ex_iff)
    with inv bi Nil(3) show "p \<in> set (finalStates A)"
      unfolding partition_inv_def by blast
  next
    assume "p \<in> set (finalStates A)"
    with Nil(3) show "has_final A (P ! i)"
      by (auto simp: has_final_def list_ex_iff)
  qed
  with minimizeDFA_props(4) [OF ini, folded P_def M_def, OF Nil(2)] show ?case by simp
next
  case (Cons c w)
  have al: "[c] \<in> set (alphabet M) \<longleftrightarrow> [c] \<in> set (alphabet A)"
    using minimizeDFA_props(1) [OF ini, folded M_def] by simp
  show ?case
  proof (cases "[c] \<in> set (alphabet A)")
    case False
    with al show ?thesis by simp
  next
    case True
    note s = minimized_step [OF ini, folded P_def M_def, OF Cons.prems True]
    show ?thesis
    proof (cases "dfa_next A p [c]")
      case None
      with s(1) True al show ?thesis by simp
    next
      case (Some t)
      from s(2) [OF Some] obtain j where j: "t \<in> set (getReachableStates A)"
        "j < length P" "t \<in> set (P ! j)"
        "dfa_next M (partition_name i) [c] = Some (partition_name j)"
        by blast
      from Cons.IH [OF j(1-3)] Some j(4) True al show ?thesis by simp
    qed
  qed
qed

text \<open>
  A DFA whose only state is named by the empty string, initial and final:
  \<open>addState('')\<close>, \<open>setInitialState('')\<close>, \<open>toggleFinalState('', true)\<close>.
\<close>

definition emptyNameFinal :: automaton where
  "emptyNameFinal =
     (let A = new_Automaton DFA;
          A = addState [] A;
          A = setInitialState [] A;
          A = toggleFinalState [] True A
      in A)"

text \<open>
  Claim C2 fails as stated: the automaton above has an initial state, and \<open>simulate\<close>
  rejects the empty input on it, since \<open>_simulateDFA\<close> begins with
  \<open>if (!this.initialState)\<close>, which holds of the empty string; \<open>minimize\<close> returns the
  automaton with the one state \<open>q0\<close>, initial and final, which accepts the empty input.
\<close>

theorem minimize_accepts_more_of_empty_named_start:
  "type emptyNameFinal = DFA \<and> initialState emptyNameFinal = Some [] \<and>
   states emptyNameFinal = [[]] \<and>
   simulate emptyNameFinal [] = \<lparr>accepted = False, path = [], error = None\<rparr> \<and>
   minimize 0 emptyNameFinal =
     Some \<lparr>type = DFA, states = [''q0''], alphabet = [], transitions = [],
           initialState = Some ''q0'', finalStates = [''q0'']\<rparr> \<and>
   simulate \<lparr>type = DFA, states = [''q0''], alphabet = [], transitions = [],
             initialState = Some ''q0'', finalStates = [''q0'']\<rparr> [] =
     \<lparr>accepted = True, path = [DStep ''q0'' []], error = None\<rparr>"
  by code_simp

text \<open>
  Claim C2, amended. For every automaton \<open>D\<close> of type DFA whose initial state is not the
  empty string (and whose names are plain keys), \<open>minimize\<close> returns an automaton that
  accepts a string exactly when \<open>D\<close> accepts it, for every input string.
\<close>

theorem minimize_accepts_same_strings:
  assumes "type D = DFA" and "initialState D = Some q0" and "q0 \<noteq> []"
    and "plain_names D"
  shows "\<exists>M. minimize n D = Some M \<and>
           (\<forall>w. accepted (simulate M w) = accepted (simulate D w))"
proof -
  note ini = assms(2)
  have ni: "\<not> no_initial D" using assms(2,3) by (simp add: no_initial_def truthy_def)
  let ?P = "refine D (initial_partitions D)"
  let ?M = "minimizeDFA D"
  have m: "minimize n D = Some ?M" using assms(1) by (simp add: minimize_def)
  from minimizeDFA_props(3) [OF ini] obtain j where j: "j < length ?P" "q0 \<in> set (?P ! j)"
    "initialState ?M = Some (partition_name j)" by blast
  have r: "q0 \<in> set (getReachableStates D)"
    using getReachableStates_closed(1) [of D] ini by (simp add: js_str_def)
  have tm: "type ?M = DFA" using ini by (rule minimizeDFA_props(2))
  have nm: "\<not> no_initial ?M" by (simp add: no_initial_def j(3) truthy_def)
  have "accepted (simulate ?M w) = accepted (simulate D w)" for w
    using minimized_loop [OF ini r j(1,2)] assms(1) ni tm nm ini
    by (simp add: simulate_def simulateDFA_def j(3) js_str_def)
  with m show ?thesis by blast
qed

theorem minimize_accepts_same_strings_witness:
  "type createSampleAutomaton = DFA \<and> initialState createSampleAutomaton = Some ''q0'' \<and>
   plain_names createSampleAutomaton \<and>
   minimize 0 createSampleAutomaton =
     Some \<lparr>type = DFA, states = [''q0'', ''q1'', ''q2''], alphabet = [''a'', ''b''],
           transitions =
             [(''q1'', [(''a'', One ''q2''), (''b'', One ''q1'')]),
              (''q2'', [(''a'', One ''q2''), (''b'', One ''q0'')])],
           initialState = Some ''q1'', finalStates = [''q0'']\<rparr> \<and>
   accepted (simulate createSampleAutomaton ''bab'') \<and>
   accepted (simulate
     \<lparr>type = DFA, states = [''q0'', ''q1'', ''q2''], alphabet = [''a'', ''b''],
      transitions =
        [(''q1'', [(''a'', One ''q2''), (''b'', One ''q1'')]),
         (''q2'', [(''a'', One ''q2''), (''b'', One ''q0'')])],
      initialState = Some ''q1'', finalStates = [''q0'']\<rparr> ''bab'')"
proof -
  have d: "type createSampleAutomaton = DFA"
    and i: "initialState createSampleAutomaton = Some ''q0''"
    by (simp_all add: createSampleAutomaton_value)
  have p: "plain_names createSampleAutomaton" by code_simp
  have m: "minimize 0 createSampleAutomaton =
     Some \<lparr>type = DFA, states = [''q0'', ''q1'', ''q2''], alphabet = [''a'', ''b''],
           transitions =
             [(''q1'', [(''a'', One ''q2''), (''b'', One ''q1'')]),
              (''q2'', [(''a'', One ''q2''), (''b'', One ''q0'')])],
           initialState = Some ''q1'', finalStates = [''q0'']\<rparr>"
    by code_simp
  have a: "accepted (simulate createSampleAutomaton ''bab'')"
    by code_simp
  from minimize_accepts_same_strings [OF d i _ p, of 0] m a
  show ?thesis using d i p by auto
qed

section \<open>Unreachable final states\<close>

text \<open>
  A DFA with the initial state \<open>q0\<close> and the final state \<open>q1\<close>, and no transition: \<open>q1\<close>
  is not reachable.
\<close>

definition unreachableFinal :: automaton where
  "unreachableFinal =
     (let A = new_Automaton DFA;
          A = addState ''q0'' A;
          A = addState ''q1'' A;
          A = setInitialState ''q0'' A;
          A = toggleFinalState ''q1'' True A;
          A = setAlphabet [''a''] A
      in A)"

text \<open>
  Claim C6, at an input where the code departs from it. Step 2 of \<open>minimize\<close> takes all
  of \<open>finalStates\<close> for the first partition, reachable or not, and the list
  \<open>unreachable\<close> of step 1 is not used. On the automaton above only \<open>q0\<close> is reachable,
  the partitions are \<open>{q1}\<close> and \<open>{q0}\<close>, and the minimized automaton has two states, of
  which \<open>q0\<close>, the final one, stands for the unreachable state \<open>q1\<close>.
\<close>

theorem minimize_keeps_unreachable_final_state:
  "type unreachableFinal = DFA \<and>
   initialState unreachableFinal = Some ''q0'' \<and>
   getReachableStates unreachableFinal = [''q0''] \<and>
   refine unreachableFinal (initial_partitions unreachableFinal) = [[''q1''], [''q0'']] \<and>
   minimize 0 unreachableFinal =
     Some \<lparr>type = DFA, states = [''q0'', ''q1''], alphabet = [''a''], transitions = [],
           initialState = Some ''q1'', finalStates = [''q0'']\<rparr>"
  by code_simp

section \<open>A subset construction that does not end\<close>

text \<open>
  The NFA for the strings of one or more \<open>a\<close>: \<open>q0\<close> goes to \<open>q0\<close> and to \<open>q1\<close> on \<open>a\<close>, the
  final state \<open>q1\<close> goes to \<open>q1\<close> on \<open>a\<close>.
\<close>

definition oneOrMoreA :: automaton where
  "oneOrMoreA =
     (let A = new_Automaton NFA;
          A = addState ''q0'' A;
          A = addState ''q1'' A;
          A = setInitialState ''q0'' A;
          A = toggleFinalState ''q1'' True A;
          A = snd (addTransition ''q0'' ''a'' ''q0'' A);
          A = snd (addTransition ''q0'' ''a'' ''q1'' A);
          A = snd (addTransition ''q1'' ''a'' ''q1'' A)
      in A)"

lemma oneOrMoreA_value:
  "oneOrMoreA =
     \<lparr>type = NFA, states = [''q0'', ''q1''], alphabet = [''a''],
      transitions = [(''q0'', [(''a'', Many [''q0'', ''q1''])]), (''q1'', [(''a'', Many [''q1''])])],
      initialState = Some ''q0'', finalStates = [''q1'']\<rparr>"
  by code_simp

text \<open>The state lists the loop meets: \<open>q0\<close> and \<open>k\<close> copies of \<open>q1\<close>.\<close>

definition copies :: "nat \<Rightarrow> string list" where
  "copies k = ''q0'' # replicate k ''q1''"

lemma eps_not_a: "eps \<noteq> ''a''"
  by (simp add: eps_def)

lemma oneOrMoreA_eps_targets: "eps_targets oneOrMoreA q = []"
  using eps_not_a by (simp add: eps_targets_def oneOrMoreA_value get2_def obj_get_def)

lemma closure_loop_no_eps:
  "(\<And>q. eps_targets A q = []) \<Longrightarrow> closure_loop A closure stack = closure"
proof (induction stack arbitrary: closure rule: rev_induct)
  case Nil
  show ?case by (simp add: closure_loop.simps [of A closure "[]"])
next
  case (snoc x xs)
  from snoc.prems have "eps_targets A x = []" by simp
  then have "closure_loop A closure (xs @ [x]) = closure_loop A closure xs"
    by (simp add: closure_loop.simps [of A closure "xs @ [x]"])
  with snoc show ?case by simp
qed

lemma oneOrMoreA_closure: "epsilonClosure oneOrMoreA xs = sort xs"
  by (simp add: epsilonClosure_def closure_loop_no_eps oneOrMoreA_eps_targets)

lemma q0_le_q1: "''q0'' \<le> ''q1''"
  by code_simp

lemma sort_copies: "sort (copies k) = copies k"
proof -
  have "sorted (copies k)" using q0_le_q1 by (simp add: copies_def)
  then show ?thesis by (rule sorted_sort_id)
qed

lemma concat_replicate_single: "concat (replicate k [x]) = replicate k x"
  by (induction k) simp_all

lemma oneOrMoreA_move: "move oneOrMoreA (copies k) ''a'' = copies (Suc k)"
proof -
  have "map (\<lambda>q. members (get2 (transitions oneOrMoreA) q ''a'')) (replicate k ''q1'')
          = replicate k [''q1'']"
    by (simp add: oneOrMoreA_value get2_def obj_get_def)
  then show ?thesis
    by (simp add: move_def copies_def concat_replicate_single)
       (simp add: oneOrMoreA_value get2_def obj_get_def replicate_append_same)
qed

lemma oneOrMoreA_next: "getNextStates oneOrMoreA (copies k) ''a'' = copies (Suc k)"
  by (simp add: getNextStates_def oneOrMoreA_move oneOrMoreA_closure sort_copies)

lemma length_join_comma:
  "length (join_comma (x # xs)) = length x + sum_list (map (\<lambda>y. Suc (length y)) xs)"
  by (induction xs arbitrary: x) simp_all

lemma length_name_copies: "length (getSetName (copies k)) = 3 * k + 4"
  by (simp add: getSetName_def copies_def length_join_comma sum_list_replicate)

text \<open>
  The loop of \<open>convertToDFA\<close> on this NFA: when the queue holds the list of \<open>q0\<close> and \<open>k\<close>
  copies of \<open>q1\<close> and no known name is longer than the name of that list, the round
  queues the list with one more copy, under a longer name.
\<close>

lemma oneOrMoreA_round:
  assumes "\<forall>x \<in> set (states dfa). length x \<le> 3 * k + 4"
    and "\<forall>s \<in> set processed. length (getSetName s) \<le> 3 * k + 4"
  shows "\<exists>dfa'. foldl (convert_symbol oneOrMoreA (copies k) (processed @ [copies k]))
                  (dfa, []) (alphabet oneOrMoreA) = (dfa', [copies (Suc k)]) \<and>
               (\<forall>x \<in> set (states dfa'). length x \<le> 3 * Suc k + 4)"
proof -
  let ?name = "getSetName (copies (Suc k))"
  have l: "length ?name = 3 * Suc k + 4" by (rule length_name_copies)
  have n1: "?name \<notin> set (states dfa)"
    using assms(1) l by fastforce
  have n2: "\<not> list_ex (\<lambda>s. getSetName s = ?name) (processed @ [copies k])"
    using assms(2) l length_name_copies [of k] by (fastforce simp: list_ex_iff)
  have ne: "copies (Suc k) \<noteq> []" by (simp add: copies_def)
  define d where "d = addState ?name dfa"
  define d' where "d' = (if has_final oneOrMoreA (copies (Suc k))
                         then toggleFinalState ?name True d else d)"
  have sd: "set (states d') = insert ?name (set (states dfa))"
    by (simp add: d'_def d_def addState_def toggleFinalState_def)
  have step: "convert_symbol oneOrMoreA (copies k) (processed @ [copies k]) (dfa, []) ''a''
        = (snd (addTransition (getSetName (copies k)) ''a'' ?name d'), [copies (Suc k)])"
    using eps_not_a n1 n2 ne
    by (simp add: convert_symbol_def oneOrMoreA_next Let_def d'_def d_def)
  have "set (states (snd (addTransition (getSetName (copies k)) ''a'' ?name d')))
          = set (states d')"
    by (simp add: addTransition_def Let_def)
  with sd assms(1) l have "\<forall>x \<in> set (states (snd (addTransition (getSetName (copies k)) ''a'' ?name d'))).
          length x \<le> 3 * Suc k + 4"
    by auto
  with step show ?thesis
    by (simp add: oneOrMoreA_value [THEN arg_cong, of alphabet])
qed

lemma oneOrMoreA_loop:
  assumes "\<forall>x \<in> set (states dfa). length x \<le> 3 * k + 4"
    and "\<forall>s \<in> set processed. length (getSetName s) \<le> 3 * k + 4"
  shows "convert_loop n oneOrMoreA dfa [copies k] processed = None"
  using assms
proof (induction n arbitrary: k dfa processed)
  case 0
  show ?case by simp
next
  case (Suc n)
  from oneOrMoreA_round [OF Suc.prems] obtain dfa' where
    r: "foldl (convert_symbol oneOrMoreA (copies k) (processed @ [copies k]))
          (dfa, []) (alphabet oneOrMoreA) = (dfa', [copies (Suc k)])"
    and s: "\<forall>x \<in> set (states dfa'). length x \<le> 3 * Suc k + 4"
    by blast
  have p: "\<forall>s \<in> set (processed @ [copies k]). length (getSetName s) \<le> 3 * Suc k + 4"
    using Suc.prems(2) length_name_copies [of k] by fastforce
  from Suc.IH [OF s p] r show ?case by simp
qed

text \<open>
  Claim C1, at an input where the code departs from it. \<open>_getNextStates\<close> concatenates
  the target Sets of the states of a list and \<open>_epsilonClosure\<close> keeps what it is given,
  so a state reached from two states of the list is in the next list twice, and the
  list with the duplicate has a name of its own. On the NFA above every round of the
  loop of \<open>convertToDFA\<close> queues a new list, \<open>q0\<close> with one more copy of \<open>q1\<close>: however
  many rounds are allowed, \<open>convertToDFA\<close> does not return a DFA. The NFA itself accepts
  the string \<open>a\<close>.
\<close>

theorem convertToDFA_does_not_return:
  "type oneOrMoreA = NFA \<and> initialState oneOrMoreA = Some ''q0'' \<and>
   accepted (simulate oneOrMoreA ''a'') \<and>
   convertToDFA n oneOrMoreA = None"
proof -
  have c: "epsilonClosure oneOrMoreA [''q0''] = copies 0"
    using sort_copies [of 0] by (simp add: oneOrMoreA_closure copies_def)
  have i: "js_str (initialState oneOrMoreA) = ''q0''" "type oneOrMoreA = NFA"
    by (simp_all add: oneOrMoreA_value js_str_def)
  define dfa where "dfa = (let d = setInitialState (getSetName (copies 0))
                                (addState (getSetName (copies 0)) (new_Automaton DFA))
                           in if has_final oneOrMoreA (copies 0)
                              then toggleFinalState (getSetName (copies 0)) True d else d)"
  have "set (states dfa) = {getSetName (copies 0)}"
    by (simp add: dfa_def Let_def addState_def setInitialState_def toggleFinalState_def
        new_Automaton_def)
  then have "\<forall>x \<in> set (states dfa). length x \<le> 3 * 0 + 4"
    using length_name_copies [of 0] by simp
  then have "convert_loop n oneOrMoreA dfa [copies 0] [] = None"
    by (intro oneOrMoreA_loop) simp_all
  then have "convertToDFA n oneOrMoreA = None"
    by (simp add: convertToDFA_def i c Let_def dfa_def)
  moreover have "accepted (simulate oneOrMoreA ''a'')" by code_simp
  ultimately show ?thesis by (simp add: oneOrMoreA_value)
qed

end
